theory Spec2Isabelle
  imports Complex_Main "HOL-Library.Multiset" "HOL-Library.Char_ord" "HOL-Library.List_Lexorder"
begin

section \<open>Characters and strings\<close>

text \<open>
  A Python \<open>str\<close> is a sequence of code points. The model keeps a string as a
  \<^typ>\<open>string\<close> and reads each \<^typ>\<open>char\<close> as the code point of the same number,
  so it covers the strings whose code points are below 256. The three character classes the
  source relies on are the ones of CPython on that range: \<open>str.strip()\<close> and the
  regular expression class \<open>\s\<close> both use the Unicode white space test,
  \<open>\w\<close> is "alphanumeric or underscore", and \<open>str.lower()\<close> maps the capital
  letters to the small ones.
\<close>

definition is_space :: "char \<Rightarrow> bool" where
  "is_space c =
     (let n = (of_char c :: nat)
      in (9 \<le> n \<and> n \<le> 13) \<or> (28 \<le> n \<and> n \<le> 32) \<or> n = 133 \<or> n = 160)"

definition is_alnum :: "char \<Rightarrow> bool" where
  "is_alnum c =
     (let n = (of_char c :: nat)
      in (48 \<le> n \<and> n \<le> 57) \<or> (65 \<le> n \<and> n \<le> 90) \<or> (97 \<le> n \<and> n \<le> 122)
         \<or> n = 170 \<or> n = 178 \<or> n = 179 \<or> n = 181 \<or> n = 185 \<or> n = 186
         \<or> (188 \<le> n \<and> n \<le> 190) \<or> (192 \<le> n \<and> n \<le> 214)
         \<or> (216 \<le> n \<and> n \<le> 246) \<or> (248 \<le> n \<and> n \<le> 255))"

definition is_word :: "char \<Rightarrow> bool" where
  "is_word c = (is_alnum c \<or> c = CHR ''_'')"

text \<open>
  The capital letters of the range are the code points 65 to 90 and 192 to 222 without 215;
  the small letter of each is 32 higher. In all of them the bit of weight 32 is clear, so
  adding 32 is setting that bit.
\<close>

definition is_upper :: "char \<Rightarrow> bool" where
  "is_upper c =
     (let n = (of_char c :: nat)
      in (65 \<le> n \<and> n \<le> 90) \<or> (192 \<le> n \<and> n \<le> 222 \<and> n \<noteq> 215))"

definition lower_char :: "char \<Rightarrow> char" where
  "lower_char c =
     (if is_upper c
      then (case c of Char b0 b1 b2 b3 b4 b5 b6 b7 \<Rightarrow> Char b0 b1 b2 b3 b4 True b6 b7)
      else c)"

definition lower :: "string \<Rightarrow> string" where
  "lower s = map lower_char s"

text \<open>\<open>s.strip()\<close>: the white space at both ends is removed.\<close>

definition strip :: "string \<Rightarrow> string" where
  "strip s = rev (dropWhile is_space (rev (dropWhile is_space s)))"

section \<open>Lender resolver\<close>

text \<open>
  \<^verbatim>\<open>
  def normalize_lender_key(value: str) -> str:
      return re.sub(r"[^a-z0-9]", "", value.lower())
  \<close>
\<close>

definition is_key_char :: "char \<Rightarrow> bool" where
  "is_key_char c =
     (let n = (of_char c :: nat) in (97 \<le> n \<and> n \<le> 122) \<or> (48 \<le> n \<and> n \<le> 57))"

definition normalize_lender_key :: "string \<Rightarrow> string" where
  "normalize_lender_key v = filter is_key_char (lower v)"

text \<open>
  A \<open>Path\<close> is kept as its text. The index is a \<open>Dict[str, Path]\<close>.
\<close>

type_synonym path = string
type_synonym lender_index = "string \<rightharpoonup> path"

text \<open>
  \<^verbatim>\<open>
  def find_lender_files(lenders, index):
      found = []
      missing = []
      for lender in lenders:
          key = normalize_lender_key(lender)
          path = index.get(key)
          if path:
              found.append((lender, path))
          else:
              missing.append(lender)
      return found, missing
  \<close>
  The loop carries the two lists it appends to. A \<open>pathlib.Path\<close> defines neither
  \<open>__bool__\<close> nor \<open>__len__\<close>, so \<open>if path\<close> is the test that the key was
  present.
\<close>

fun find_lender_files_loop ::
  "string list \<Rightarrow> lender_index \<Rightarrow> (string \<times> path) list \<Rightarrow> string list
     \<Rightarrow> (string \<times> path) list \<times> string list" where
  "find_lender_files_loop [] index found missing = (found, missing)"
| "find_lender_files_loop (lender # rest) index found missing =
     (let key = normalize_lender_key lender
      in case index key of
           Some p \<Rightarrow> find_lender_files_loop rest index (found @ [(lender, p)]) missing
         | None \<Rightarrow> find_lender_files_loop rest index found (missing @ [lender]))"

definition find_lender_files ::
  "string list \<Rightarrow> lender_index \<Rightarrow> (string \<times> path) list \<times> string list" where
  "find_lender_files lenders index = find_lender_files_loop lenders index [] []"

subsection \<open>Finding the parenthesized group\<close>

text \<open>
  \<^verbatim>\<open>match = re.search(r"\(([^)]+)\)", raw_input)\<close>
  The search tries each position from the left. At a position holding an opening
  parenthesis the class \<open>[^)]+\<close> takes every following character up to the next
  closing parenthesis (a negated class also takes line breaks); the match succeeds there
  when that run is not empty and a closing parenthesis follows it. Giving characters of
  the run back cannot help, since the character that would then have to be the closing
  parenthesis is one of the run. The result holds \<open>raw_input[:match.start()]\<close>,
  \<open>match.group(1)\<close> and \<open>raw_input[match.end():]\<close>.
\<close>

fun search_group :: "string \<Rightarrow> string \<Rightarrow> (string \<times> string \<times> string) option" where
  "search_group front [] = None"
| "search_group front (c # rest) =
     (let inner = takeWhile (\<lambda>x. x \<noteq> CHR '')'') rest;
          tail = dropWhile (\<lambda>x. x \<noteq> CHR '')'') rest
      in if c = CHR ''('' \<and> inner \<noteq> [] \<and> tail \<noteq> []
         then Some (front, inner, tl tail)
         else search_group (front @ [c]) rest)"

subsection \<open>Splitting the lender list\<close>

text \<open>
  \<^verbatim>\<open>
  LENDER_SPLIT_PATTERN = re.compile(
      r"\s*(?:,|/|&|\band\b|\bor\b|\+)\s*", flags=re.IGNORECASE
  )
  \<close>
  The matcher works on the rest of the string from the current position, together with
  one bit of the text before it: whether the character just before the position is a word
  character (false at the start of the string). That bit is all \<open>\b\<close> needs.

  \<open>starts_with_ci w s\<close>: the string \<open>s\<close> begins with the lower-case word
  \<open>w\<close>, letter case ignored.
\<close>

fun starts_with_ci :: "string \<Rightarrow> string \<Rightarrow> bool" where
  "starts_with_ci [] s = True"
| "starts_with_ci (w # ws) [] = False"
| "starts_with_ci (w # ws) (c # s) = (lower_char c = w \<and> starts_with_ci ws s)"

definition next_is_word :: "string \<Rightarrow> bool" where
  "next_is_word s = (case s of [] \<Rightarrow> False | c # _ \<Rightarrow> is_word c)"

text \<open>
  \<open>\bWORD\b\<close> at the current position. The first letter of the word is a word
  character, so the boundary before it holds when the character before is none; the last
  letter is one too, so the boundary after it holds when no word character follows.
\<close>

definition match_keyword :: "bool \<Rightarrow> string \<Rightarrow> string \<Rightarrow> string option" where
  "match_keyword prev_word w s =
     (if \<not> prev_word \<and> starts_with_ci w s \<and> \<not> next_is_word (drop (length w) s)
      then Some (drop (length w) s) else None)"

text \<open>
  The alternation, in the order of the pattern. The result is the rest of the string after
  the alternative and whether the last character taken is a word character.
\<close>

definition match_alternative :: "bool \<Rightarrow> string \<Rightarrow> (string \<times> bool) option" where
  "match_alternative prev_word s =
     (case s of
        [] \<Rightarrow> None
      | c # rest \<Rightarrow>
          if c = CHR '','' then Some (rest, False)
          else if c = CHR ''/'' then Some (rest, False)
          else if c = CHR ''&'' then Some (rest, False)
          else (case match_keyword prev_word ''and'' s of
                  Some r \<Rightarrow> Some (r, True)
                | None \<Rightarrow>
                   (case match_keyword prev_word ''or'' s of
                      Some r \<Rightarrow> Some (r, True)
                    | None \<Rightarrow> if c = CHR ''+'' then Some (rest, False) else None)))"

text \<open>
  The whole pattern at the current position: the leading \<open>\s*\<close> takes all the white
  space there is, then one alternative, then the trailing \<open>\s*\<close> all the white space
  there is. No alternative begins with white space, so a leading \<open>\s*\<close> that gave
  white space back could not be followed by one; the model therefore tries the longest
  run only.
\<close>

definition match_separator :: "bool \<Rightarrow> string \<Rightarrow> (string \<times> bool) option" where
  "match_separator prev_word s =
     (let lead = takeWhile is_space s;
          s1 = dropWhile is_space s;
          prev1 = (if lead = [] then prev_word else is_word (last lead))
      in case match_alternative prev1 s1 of
           None \<Rightarrow> None
         | Some (s2, w2) \<Rightarrow>
             (let trail = takeWhile is_space s2
              in Some (dropWhile is_space s2, if trail = [] then w2 else is_word (last trail))))"

lemma match_keyword_shorter:
  "match_keyword prev_word (w # ws) s = Some r \<Longrightarrow> length r < length s"
  by (cases s) (auto simp: match_keyword_def split: if_splits)

lemma match_alternative_shorter:
  "match_alternative prev_word s = Some (r, b) \<Longrightarrow> length r < length s"
  by (cases s)
     (auto simp: match_alternative_def split: if_splits option.splits
           dest: match_keyword_shorter)

lemma match_separator_shorter:
  "match_separator prev_word s = Some (r, b) \<Longrightarrow> length r < length s"
proof -
  assume m: "match_separator prev_word s = Some (r, b)"
  then obtain p s2 w2 where a: "match_alternative p (dropWhile is_space s) = Some (s2, w2)"
    and r: "r = dropWhile is_space s2"
    by (auto simp: match_separator_def Let_def split: option.splits)
  have "length r \<le> length s2" unfolding r by (rule length_dropWhile_le)
  also have "length s2 < length (dropWhile is_space s)" using a by (rule match_alternative_shorter)
  also have "length (dropWhile is_space s) \<le> length s" by (rule length_dropWhile_le)
  finally show ?thesis .
qed

text \<open>
  \<open>LENDER_SPLIT_PATTERN.split(segment)\<close>: the scan goes from left to right; where
  the pattern matches, the piece collected so far is emitted and the scan goes on after
  the match; elsewhere the character joins the piece. A match is never empty. The last
  piece is emitted at the end of the string.
\<close>

function split_loop :: "bool \<Rightarrow> string \<Rightarrow> string \<Rightarrow> string list" where
  "split_loop prev_word piece s =
     (if s = [] then [piece]
      else case match_separator prev_word s of
             Some (rest, w) \<Rightarrow> piece # split_loop w [] rest
           | None \<Rightarrow> split_loop (is_word (hd s)) (piece @ [hd s]) (tl s))"
  by pat_completeness auto
termination
  by (relation "measure (\<lambda>(prev_word, piece, s). length s)")
     (auto dest: match_separator_shorter)

definition lender_split :: "string \<Rightarrow> string list" where
  "lender_split segment = split_loop False [] segment"

text \<open>
  \<^verbatim>\<open>
  def parse_lenders_and_question(raw_input):
      match = re.search(r"\(([^)]+)\)", raw_input)
      if not match:
          return [], raw_input.strip()
      lenders_segment = match.group(1)
      question = (raw_input[: match.start()] + raw_input[match.end() :]).strip()
      lenders = [
          token.strip()
          for token in LENDER_SPLIT_PATTERN.split(lenders_segment)
          if token.strip()
      ]
      return lenders, question
  \<close>
\<close>

definition parse_lenders_and_question :: "string \<Rightarrow> string list \<times> string" where
  "parse_lenders_and_question raw_input =
     (case search_group [] raw_input of
        None \<Rightarrow> ([], strip raw_input)
      | Some (front, lenders_segment, back) \<Rightarrow>
          (let question = strip (front @ back);
               lenders = map strip (filter (\<lambda>token. strip token \<noteq> [])
                                           (lender_split lenders_segment))
           in (lenders, question)))"

text \<open>
  \<open>no_group_start s\<close>: no position of \<open>s\<close> can begin a parenthesized group,
  whatever follows \<open>s\<close>: every opening parenthesis in it is directly followed by a
  closing one, inside \<open>s\<close>.
\<close>

fun no_group_start :: "string \<Rightarrow> bool" where
  "no_group_start [] = True"
| "no_group_start [c] = (c \<noteq> CHR ''('')"
| "no_group_start (c # d # s) =
     ((c = CHR ''('' \<longrightarrow> d = CHR '')'') \<and> no_group_start (d # s))"

subsection \<open>Lender lists written with separators\<close>

text \<open>
  The vocabulary for statements about lists of names joined by separators. The four
  separator characters of the pattern:
\<close>

definition is_symbol :: "char \<Rightarrow> bool" where
  "is_symbol c = (c = CHR '','' \<or> c = CHR ''/'' \<or> c = CHR ''&'' \<or> c = CHR ''+'')"

definition sep_start :: "char \<Rightarrow> bool" where
  "sep_start c = (is_space c \<or> is_symbol c)"

text \<open>
  \<open>has_keyword prev_word s\<close>: at some position of \<open>s\<close> the word \<open>and\<close> or the
  word \<open>or\<close> stands on its own (the end of \<open>s\<close> counts as a word boundary, the
  start as one when \<open>prev_word\<close> is false).
\<close>

fun has_keyword :: "bool \<Rightarrow> string \<Rightarrow> bool" where
  "has_keyword prev_word [] = False"
| "has_keyword prev_word (c # s) =
     (match_keyword prev_word ''and'' (c # s) \<noteq> None
      \<or> match_keyword prev_word ''or'' (c # s) \<noteq> None
      \<or> has_keyword (is_word c) s)"

text \<open>
  A name the pattern leaves whole: it is not empty, has no white space at either end,
  holds none of the separator characters and no closing parenthesis, and neither
  \<open>and\<close> nor \<open>or\<close> as a word of its own.
\<close>

definition clean_name :: "string \<Rightarrow> bool" where
  "clean_name n =
     (n \<noteq> [] \<and> \<not> is_space (hd n) \<and> \<not> is_space (last n)
      \<and> list_all (\<lambda>c. \<not> is_symbol c \<and> c \<noteq> CHR '')'') n
      \<and> \<not> has_keyword False n)"

text \<open>
  The separators: one separator character with any white space around it, or the word
  \<open>and\<close> or \<open>or\<close> in any letter case with white space on both sides.
\<close>

definition symbol_separator :: "string \<Rightarrow> bool" where
  "symbol_separator d =
     (case dropWhile is_space d of
        [] \<Rightarrow> False
      | c # trail \<Rightarrow> is_symbol c \<and> list_all is_space trail)"

definition keyword_separator :: "string \<Rightarrow> bool" where
  "keyword_separator d =
     (let lead = takeWhile is_space d;
          body = dropWhile is_space d;
          core = takeWhile (\<lambda>c. \<not> is_space c) body;
          trail = dropWhile (\<lambda>c. \<not> is_space c) body
      in lead \<noteq> [] \<and> (lower core = ''and'' \<or> lower core = ''or'')
         \<and> trail \<noteq> [] \<and> list_all is_space trail)"

definition separator :: "string \<Rightarrow> bool" where
  "separator d = (symbol_separator d \<or> keyword_separator d)"

text \<open>The names written one after the other, the \<open>i\<close>-th separator after the \<open>i\<close>-th name.\<close>

fun join_names :: "string list \<Rightarrow> string list \<Rightarrow> string" where
  "join_names [] seps = []"
| "join_names [n] seps = n"
| "join_names (n # m # ns) [] = n @ join_names (m # ns) []"
| "join_names (n # m # ns) (d # ds) = n @ d @ join_names (m # ns) ds"


subsection \<open>The index of the PDF directory\<close>

text \<open>
  \<^verbatim>\<open>
  def index_lender_pdfs(pdf_dir: Path) -> Dict[str, Path]:
      lenders: Dict[str, Path] = {}
      if not pdf_dir.exists():
          return lenders
      for pdf_path in sorted(pdf_dir.glob("*.pdf")):
          key = normalize_lender_key(pdf_path.stem)
          lenders[key] = pdf_path
      return lenders
  \<close>
  The file system is an input of the model: for a path, the names of the entries found
  there, or nothing when the path does not exist. \<open>glob("*.pdf")\<close> keeps the
  entries whose name ends in \<open>.pdf\<close> (it does not descend and, on a POSIX system,
  compares letter case). The paths it yields lie in the same directory, so
  \<open>sorted\<close> orders them by their names, compared code point by code point. The
  stem of a name is the name without its last suffix, as \<open>pathlib\<close> computes
  it: the part before the last dot, provided that dot is neither the first nor the last
  character.
\<close>

type_synonym file_system = "path \<Rightarrow> string list option"

definition is_pdf_name :: "string \<Rightarrow> bool" where
  "is_pdf_name name = (4 \<le> length name \<and> drop (length name - 4) name = ''.pdf'')"

fun rfind :: "char \<Rightarrow> string \<Rightarrow> nat option" where
  "rfind c [] = None"
| "rfind c (x # xs) =
     (case rfind c xs of
        Some i \<Rightarrow> Some (Suc i)
      | None \<Rightarrow> if x = c then Some 0 else None)"

definition stem :: "string \<Rightarrow> string" where
  "stem name =
     (case rfind CHR ''.'' name of
        None \<Rightarrow> name
      | Some i \<Rightarrow> if 0 < i \<and> i < length name - 1 then take i name else name)"

definition index_lender_pdfs :: "file_system \<Rightarrow> path \<Rightarrow> lender_index" where
  "index_lender_pdfs fs pdf_dir =
     (case fs pdf_dir of
        None \<Rightarrow> Map.empty
      | Some entries \<Rightarrow>
          fold (\<lambda>name lenders. lenders(normalize_lender_key (stem name) \<mapsto> pdf_dir @ ''/'' @ name))
               (sort (filter is_pdf_name entries)) Map.empty)"

section \<open>Provider, session state and errors\<close>

text \<open>
  An exception is its class and its message (\<open>str(exc)\<close>). The classes are the ones
  the handlers of \<open>main_chat_interface\<close> tell apart, and \<open>OtherError\<close> for any
  other exception.
\<close>

datatype exn_class = TimeoutError | RuntimeError | FileNotFoundError | ValueError | OtherError

type_synonym exn = "exn_class \<times> string"

text \<open>
  A file handle of the provider. The source reads three attributes: \<open>name\<close>,
  \<open>display_name\<close> (which may be missing) and \<open>state\<close> (which may be missing).
  Of a state it uses its truth value (\<open>getattr(current, "state", None) and ...\<close>) and
  its \<open>name\<close>.
\<close>

record file_state =
  state_truthy :: bool
  state_name :: string

record file_obj =
  file_name :: string
  display_name :: "string option"
  state :: "file_state option"

record cache_entry =
  entry_file :: file_obj
  entry_mtime :: real

record log_entry =
  log_timestamp :: string
  log_user_email :: string
  log_prompt :: string
  log_response :: "string option"
  log_error :: "string option"

text \<open>
  What the outside gives back, call by call: the \<open>n\<close>-th reading of
  \<open>time.time()\<close>, the results of the \<open>n\<close>-th \<open>genai.upload_file\<close>,
  \<open>genai.get_file\<close> and \<open>chat.send_message\<close> (an exception, or the handle, or
  the value of \<open>response.text\<close>), \<open>Path.resolve\<close>, and the time stamp of the
  \<open>n\<close>-th log entry. Clock readings and modification times are taken as exact numbers.
\<close>

record provider =
  time_at :: "nat \<Rightarrow> real"
  upload_result :: "nat \<Rightarrow> exn + file_obj"
  get_result :: "nat \<Rightarrow> exn + file_obj"
  send_result :: "nat \<Rightarrow> exn + string option"
  resolve :: "path \<Rightarrow> string"
  timestamp_at :: "nat \<Rightarrow> string"

text \<open>
  The state the program changes or observes: how often the clock was read, the
  \<open>time.sleep\<close> calls, the arguments of the provider calls made so far, the
  modification times on disk (\<open>pdf_path.stat().st_mtime\<close>, or the exception
  \<open>stat\<close> raises), and the session state of the user interface. A key missing from
  the session state stands for the empty value that \<open>ensure_upload_cache\<close> and
  \<open>log_interaction\<close> put there before any use.
\<close>

record world =
  clock_reads :: nat
  sleeps :: "real list"
  upload_calls :: "path list"
  get_calls :: "string list"
  send_calls :: "(file_obj list \<times> string) list"
  stat_mtime :: "path \<Rightarrow> exn + real"
  upload_cache :: "string \<rightharpoonup> cache_entry"
  chat_session_key :: "string option"
  messages :: "(string \<times> string) list"
  rendered :: "string list"
  interaction_logs :: "log_entry list"

definition read_clock :: "provider \<Rightarrow> world \<Rightarrow> real \<times> world" where
  "read_clock env w = (time_at env (clock_reads w), w\<lparr>clock_reads := Suc (clock_reads w)\<rparr>)"

definition get_file :: "provider \<Rightarrow> world \<Rightarrow> string \<Rightarrow> (exn + file_obj) \<times> world" where
  "get_file env w n =
     (get_result env (length (get_calls w)), w\<lparr>get_calls := get_calls w @ [n]\<rparr>)"

definition upload_file :: "provider \<Rightarrow> world \<Rightarrow> path \<Rightarrow> (exn + file_obj) \<times> world" where
  "upload_file env w p =
     (upload_result env (length (upload_calls w)), w\<lparr>upload_calls := upload_calls w @ [p]\<rparr>)"

definition send_message ::
  "provider \<Rightarrow> world \<Rightarrow> file_obj list \<times> string \<Rightarrow> (exn + string option) \<times> world" where
  "send_message env w parts =
     (send_result env (length (send_calls w)), w\<lparr>send_calls := send_calls w @ [parts]\<rparr>)"

section \<open>Upload cache and readiness wait\<close>

text \<open>
  \<^verbatim>\<open>
  def wait_for_file_active(file_obj, timeout: float = 120):
      start = time.time()
      current = file_obj

      def _label(obj):
          return getattr(obj, "display_name", getattr(obj, "name", "uploaded file"))

      while getattr(current, "state", None) and current.state.name == "PROCESSING":
          if time.time() - start > timeout:
              raise TimeoutError(
                  f"Timed out while waiting for {_label(current)} to process."
              )
          time.sleep(2)
          current = genai.get_file(current.name)

      if getattr(current, "state", None) and current.state.name != "ACTIVE":
          raise RuntimeError(
              f"Gemini reported '{current.state.name}' for {_label(current)}."
          )
      return current
  \<close>
\<close>

definition label :: "file_obj \<Rightarrow> string" where
  "label obj = (case display_name obj of Some d \<Rightarrow> d | None \<Rightarrow> file_name obj)"

text \<open>\<open>getattr(obj, "state", None) and obj.state.name == n\<close>\<close>

definition state_is :: "file_obj \<Rightarrow> string \<Rightarrow> bool" where
  "state_is obj n =
     (case state obj of None \<Rightarrow> False | Some s \<Rightarrow> state_truthy s \<and> state_name s = n)"

text \<open>
  The loop may go on for ever (a clock that stands still, a provider that always answers
  "processing"), so it is a partial function: \<open>None\<close> is "does not return".
\<close>

partial_function (option) wait_loop ::
  "provider \<Rightarrow> real \<Rightarrow> real \<Rightarrow> world \<Rightarrow> file_obj \<Rightarrow> (world \<times> (exn + file_obj)) option" where
  "wait_loop env start timeout w current =
     (if state_is current ''PROCESSING'' then
        (case read_clock env w of (now, w1) \<Rightarrow>
           if now - start > timeout
           then Some (w1, Inl (TimeoutError,
                  ''Timed out while waiting for '' @ label current @ '' to process.''))
           else (case get_file env (w1\<lparr>sleeps := sleeps w1 @ [2]\<rparr>) (file_name current) of
                   (Inl e, w2) \<Rightarrow> Some (w2, Inl e)
                 | (Inr next_obj, w2) \<Rightarrow> wait_loop env start timeout w2 next_obj))
      else Some (w, Inr current))"

text \<open>The check after the loop.\<close>

definition check_active :: "file_obj \<Rightarrow> exn + file_obj" where
  "check_active current =
     (case state current of
        None \<Rightarrow> Inr current
      | Some s \<Rightarrow>
          if state_truthy s \<and> state_name s \<noteq> ''ACTIVE''
          then Inl (RuntimeError,
                 ''Gemini reported '' @ [CHR 0x27] @ state_name s @ [CHR 0x27]
                 @ '' for '' @ label current @ ''.'')
          else Inr current)"

definition wait_for_file_active ::
  "provider \<Rightarrow> world \<Rightarrow> file_obj \<Rightarrow> real \<Rightarrow> (world \<times> (exn + file_obj)) option" where
  "wait_for_file_active env w file_obj timeout =
     (case read_clock env w of (start, w0) \<Rightarrow>
        (case wait_loop env start timeout w0 file_obj of
           None \<Rightarrow> None
         | Some (w1, Inl e) \<Rightarrow> Some (w1, Inl e)
         | Some (w1, Inr current) \<Rightarrow> Some (w1, check_active current)))"

text \<open>
  \<^verbatim>\<open>
  def upload_pdf_with_cache(pdf_path: Path):
      ensure_upload_cache()
      cache: Dict[str, Dict[str, object]] = st.session_state.upload_cache
      path_key = str(pdf_path.resolve())
      mtime = pdf_path.stat().st_mtime

      cached = cache.get(path_key)
      if cached and cached.get("mtime") == mtime:
          return cached["file"]

      upload = genai.upload_file(path=str(pdf_path))
      upload = wait_for_file_active(upload)

      cache[path_key] = {"file": upload, "mtime": mtime}
      return upload
  \<close>
  An entry of the cache is a dictionary with two keys, so \<open>cached\<close> is true exactly
  when the key is present.
\<close>

definition cache_lookup :: "cache_entry option \<Rightarrow> real \<Rightarrow> file_obj option" where
  "cache_lookup cached mtime =
     (case cached of
        None \<Rightarrow> None
      | Some c \<Rightarrow> if entry_mtime c = mtime then Some (entry_file c) else None)"

definition upload_pdf_with_cache ::
  "provider \<Rightarrow> world \<Rightarrow> path \<Rightarrow> (world \<times> (exn + file_obj)) option" where
  "upload_pdf_with_cache env w pdf_path =
     (let cache = upload_cache w;
          path_key = resolve env pdf_path
      in case stat_mtime w pdf_path of
           Inl e \<Rightarrow> Some (w, Inl e)
         | Inr mtime \<Rightarrow>
             (case cache_lookup (cache path_key) mtime of
                Some f \<Rightarrow> Some (w, Inr f)
              | None \<Rightarrow>
                  (case upload_file env w pdf_path of
                     (Inl e, w1) \<Rightarrow> Some (w1, Inl e)
                   | (Inr upload, w1) \<Rightarrow>
                       (case wait_for_file_active env w1 upload 120 of
                          None \<Rightarrow> None
                        | Some (w2, Inl e) \<Rightarrow> Some (w2, Inl e)
                        | Some (w2, Inr active) \<Rightarrow>
                            Some (w2\<lparr>upload_cache :=
                                       cache(path_key \<mapsto>
                                         \<lparr>entry_file = active, entry_mtime = mtime\<rparr>)\<rparr>,
                                  Inr active)))))"

section \<open>Answering a query\<close>

text \<open>
  \<^verbatim>\<open>
  def ensure_chat_session(api_key: str, model_name: str, user_email: str):
      session_key = f"{user_email}:{api_key}:{model_name}"
      if (
          "chat_session" not in st.session_state
          or st.session_state.get("chat_session_key") != session_key
      ):
          model = genai.GenerativeModel(model_name)
          st.session_state.chat_session = model.start_chat(history=[])
          st.session_state.chat_session_key = session_key
  \<close>
  Creating the model object and the chat makes no call to the provider; the model keeps
  the key of the session.
\<close>

definition ensure_chat_session :: "world \<Rightarrow> string \<Rightarrow> string \<Rightarrow> string \<Rightarrow> world" where
  "ensure_chat_session w api_key model_name user_email =
     (let session_key = user_email @ '':'' @ api_key @ '':'' @ model_name
      in if chat_session_key w \<noteq> Some session_key
         then w\<lparr>chat_session_key := Some session_key\<rparr> else w)"

text \<open>
  \<^verbatim>\<open>
  def log_interaction(user_email, prompt, response, error=None):
      if "interaction_logs" not in st.session_state:
          st.session_state.interaction_logs = []
      log_entry = {
          "timestamp": datetime.now().isoformat(),
          "user_email": user_email,
          "prompt": prompt,
          "response": response if not error else None,
          "error": error,
      }
      st.session_state.interaction_logs.append(log_entry)
  \<close>
  \<open>not error\<close> holds for \<open>None\<close> and for the empty string.
\<close>

definition log_interaction ::
  "provider \<Rightarrow> world \<Rightarrow> string \<Rightarrow> string \<Rightarrow> string \<Rightarrow> string option \<Rightarrow> world" where
  "log_interaction env w user_email prompt response error =
     w\<lparr>interaction_logs := interaction_logs w @
         [\<lparr>log_timestamp = timestamp_at env (length (interaction_logs w)),
           log_user_email = user_email,
           log_prompt = prompt,
           log_response = (if error = None \<or> error = Some [] then Some response else None),
           log_error = error\<rparr>]\<rparr>"

text \<open>
  The settings a query runs under: the user, the active API key, the selected model, the
  lenders selected in the sidebar, the index of the PDF directory, and the text of the
  module constant \<open>LEX_SYSTEM_PROMPT\<close> (a long fixed text that no branch looks at).
\<close>

record settings =
  user_email :: string
  active_api_key :: string
  selected_model :: string
  selected_lenders :: "string list"
  lender_index :: lender_index
  system_prompt :: string

definition fallback_answer :: string where
  "fallback_answer =
     ''I apologize, but I couldn'' @ [CHR 0x27]
     @ ''t generate a response. Please try rephrasing your question.''"

text \<open>
  \<^verbatim>\<open>uploads = [upload_pdf_with_cache(path) for path in lender_files]\<close>
  The files are uploaded one after the other; the first exception ends the comprehension.
\<close>

fun upload_all ::
  "provider \<Rightarrow> world \<Rightarrow> path list \<Rightarrow> (world \<times> (exn + file_obj list)) option" where
  "upload_all env w [] = Some (w, Inr [])"
| "upload_all env w (p # ps) =
     (case upload_pdf_with_cache env w p of
        None \<Rightarrow> None
      | Some (w1, Inl e) \<Rightarrow> Some (w1, Inl e)
      | Some (w1, Inr f) \<Rightarrow>
          (case upload_all env w1 ps of
             None \<Rightarrow> None
           | Some (w2, Inl e) \<Rightarrow> Some (w2, Inl e)
           | Some (w2, Inr fs) \<Rightarrow> Some (w2, Inr (f # fs))))"

text \<open>
  \<^verbatim>\<open>
  def answer_with_gemini(question, lender_files, model_name, user_email) -> str:
      ensure_upload_cache()
      uploads = [upload_pdf_with_cache(path) for path in lender_files]

      ensure_chat_session(st.session_state.active_api_key, model_name, user_email)
      chat = st.session_state.chat_session

      enhanced_question = f"{LEX_SYSTEM_PROMPT}\n\nUser Question: {question}"

      parts = list(uploads) + [enhanced_question]
      response = chat.send_message(parts)
      text = (response.text or "").strip()
      if not text:
          text = "I apologize, but I couldn't generate a response. Please try rephrasing your question."
      return text
  \<close>
\<close>

definition answer_with_gemini ::
  "provider \<Rightarrow> settings \<Rightarrow> world \<Rightarrow> string \<Rightarrow> path list \<Rightarrow> string \<Rightarrow> string
     \<Rightarrow> (world \<times> (exn + string)) option" where
  "answer_with_gemini env cfg w question lender_files model_name email =
     (case upload_all env w lender_files of
        None \<Rightarrow> None
      | Some (w1, Inl e) \<Rightarrow> Some (w1, Inl e)
      | Some (w1, Inr uploads) \<Rightarrow>
          (let w2 = ensure_chat_session w1 (active_api_key cfg) model_name email;
               enhanced_question =
                 system_prompt cfg @ [CHR 0x0A, CHR 0x0A] @ ''User Question: '' @ question
           in case send_message env w2 (uploads, enhanced_question) of
                (Inl e, w3) \<Rightarrow> Some (w3, Inl e)
              | (Inr response_text, w3) \<Rightarrow>
                  (let text = strip (case response_text of None \<Rightarrow> [] | Some t \<Rightarrow> t)
                   in Some (w3, Inr (if text = [] then fallback_answer else text)))))"

text \<open>\<open>', '.join(missing)\<close>\<close>

fun join_comma :: "string list \<Rightarrow> string" where
  "join_comma [] = []"
| "join_comma [x] = x"
| "join_comma (x # y # ys) = x @ '', '' @ join_comma (y # ys)"

text \<open>
  The body of the \<open>try\<close> statement of \<open>main_chat_interface\<close>, up to the answer:
  \<^verbatim>\<open>
  lenders, question = parse_lenders_and_question(prompt)
  if not lenders and selected_lenders:
      lenders = selected_lenders
      lender_format = format_lenders_for_input(lenders)
      question = prompt.strip()
  if not lenders:
      raise ValueError(
          "Please select lenders from the dropdown or include lender names in parentheses, "
          "e.g. `(mulligan, acme) trucking industry requirements?`"
      )
  if not question:
      raise ValueError("Please include a question after the lender list.")
  matched, missing = find_lender_files(lenders, lender_index)
  if missing:
      raise FileNotFoundError(
          f"Missing PDF files for: {', '.join(missing)}. "
          "Check the sidebar list to see available lenders."
      )
  lender_paths = [path for _, path in matched]
  model_name = st.session_state.selected_model
  if not model_name:
      raise ValueError("Select a Gemini model in the sidebar before submitting.")
  with st.spinner(...):
      answer = answer_with_gemini(question, lender_paths, model_name, user_email)
  \<close>
\<close>

definition effective_query :: "settings \<Rightarrow> string \<Rightarrow> string list \<times> string" where
  "effective_query cfg prompt =
     (case parse_lenders_and_question prompt of
        (lenders, question) \<Rightarrow>
          if lenders = [] \<and> selected_lenders cfg \<noteq> []
          then (selected_lenders cfg, strip prompt)
          else (lenders, question))"

definition missing_message :: "string list \<Rightarrow> string" where
  "missing_message missing =
     ''Missing PDF files for: '' @ join_comma missing
     @ ''. Check the sidebar list to see available lenders.''"

definition answer_query ::
  "provider \<Rightarrow> settings \<Rightarrow> world \<Rightarrow> string \<Rightarrow> (world \<times> (exn + string)) option" where
  "answer_query env cfg w prompt =
     (case effective_query cfg prompt of
        (lenders, question) \<Rightarrow>
          if lenders = [] then
            Some (w, Inl (ValueError,
              ''Please select lenders from the dropdown or include lender names in parentheses, ''
              @ ''e.g. `(mulligan, acme) trucking industry requirements?`''))
          else if question = [] then
            Some (w, Inl (ValueError, ''Please include a question after the lender list.''))
          else
            (case find_lender_files lenders (lender_index cfg) of
               (matched, missing) \<Rightarrow>
                 if missing \<noteq> [] then
                   Some (w, Inl (FileNotFoundError, missing_message missing))
                 else
                   (let lender_paths = map snd matched;
                        model_name = selected_model cfg
                    in if model_name = [] then
                         Some (w, Inl (ValueError,
                           ''Select a Gemini model in the sidebar before submitting.''))
                       else answer_with_gemini env cfg w question lender_paths model_name
                              (user_email cfg))))"

text \<open>
  The query as a whole: the user's message is recorded, the body runs, and the outcome is
  shown and logged.
  \<^verbatim>\<open>
      st.markdown(answer)
      messages.append({"role": "assistant", "content": answer})
      log_interaction(user_email, prompt, answer, None)
  except TimeoutError as exc:
      error_msg = f"File processing timed out: {exc}"
      st.error(error_msg)
      log_interaction(user_email, prompt, "", str(exc))
  except FileNotFoundError as exc:
      st.error(str(exc))
      log_interaction(user_email, prompt, "", str(exc))
  except Exception as exc:
      error_msg = f"Something went wrong: {exc}"
      st.error(error_msg)
      log_interaction(user_email, prompt, "", str(exc))
  \<close>
\<close>

datatype outcome = Answered string | Failed exn

definition error_display :: "exn \<Rightarrow> string" where
  "error_display e =
     (case e of
        (TimeoutError, msg) \<Rightarrow> ''File processing timed out: '' @ msg
      | (FileNotFoundError, msg) \<Rightarrow> msg
      | (_, msg) \<Rightarrow> ''Something went wrong: '' @ msg)"

definition process_query ::
  "provider \<Rightarrow> settings \<Rightarrow> world \<Rightarrow> string \<Rightarrow> (world \<times> outcome) option" where
  "process_query env cfg w prompt =
     (let w0 = w\<lparr>messages := messages w @ [(''user'', prompt)],
                   rendered := rendered w @ [prompt]\<rparr>
      in case answer_query env cfg w0 prompt of
           None \<Rightarrow> None
         | Some (w1, Inr answer) \<Rightarrow>
             Some (log_interaction env
                     (w1\<lparr>rendered := rendered w1 @ [answer],
                         messages := messages w1 @ [(''assistant'', answer)]\<rparr>)
                     (user_email cfg) prompt answer None,
                   Answered answer)
         | Some (w1, Inl e) \<Rightarrow>
             Some (log_interaction env
                     (w1\<lparr>rendered := rendered w1 @ [error_display e]\<rparr>)
                     (user_email cfg) prompt [] (Some (snd e)),
                   Failed e))"

text \<open>
  Vocabulary for statements about the readiness wait. \<open>after_polls w h k\<close> is the
  world after \<open>k\<close> rounds of the loop that started in \<open>w\<close>, when the handle held at
  round \<open>j\<close> is \<open>h j\<close>: \<open>k\<close> more clock readings, \<open>k\<close> sleeps of 2 and
  \<open>k\<close> calls of \<open>get_file\<close>.
\<close>

definition after_polls :: "world \<Rightarrow> (nat \<Rightarrow> file_obj) \<Rightarrow> nat \<Rightarrow> world" where
  "after_polls w h k =
     w\<lparr>clock_reads := clock_reads w + k,
       sleeps := sleeps w @ replicate k 2,
       get_calls := get_calls w @ map (\<lambda>j. file_name (h j)) [0..<k]\<rparr>"

text \<open>
  \<open>processing_run env w timeout h k\<close>: a call of \<open>wait_for_file_active\<close> in world
  \<open>w\<close> goes through \<open>k\<close> rounds. At each of them the handle held, \<open>h j\<close>, reports
  "PROCESSING", the elapsed time read at the top of the round does not exceed the timeout,
  and \<open>get_file\<close> answers with the next handle, \<open>h (j + 1)\<close>.
\<close>

definition processing_run ::
  "provider \<Rightarrow> world \<Rightarrow> real \<Rightarrow> (nat \<Rightarrow> file_obj) \<Rightarrow> nat \<Rightarrow> bool" where
  "processing_run env w timeout h k =
     list_all (\<lambda>j. state_is (h j) ''PROCESSING''
                 \<and> \<not> time_at env (Suc (clock_reads w + j)) - time_at env (clock_reads w) > timeout
                 \<and> get_result env (length (get_calls w) + j) = Inr (h (Suc j)))
              [0..<k]"

text \<open>The fields of the world that the readiness wait does not touch.\<close>

definition same_session :: "world \<Rightarrow> world \<Rightarrow> bool" where
  "same_session w w' =
     (upload_cache w' = upload_cache w \<and> upload_calls w' = upload_calls w
      \<and> send_calls w' = send_calls w \<and> stat_mtime w' = stat_mtime w
      \<and> chat_session_key w' = chat_session_key w \<and> messages w' = messages w
      \<and> rendered w' = rendered w \<and> interaction_logs w' = interaction_logs w)"

text \<open>A provider and a world to run examples in.\<close>

definition example_file :: "string \<Rightarrow> file_state option \<Rightarrow> file_obj" where
  "example_file n s = \<lparr>file_name = n, display_name = None, state = s\<rparr>"

definition example_state :: "string \<Rightarrow> file_state option" where
  "example_state n = Some \<lparr>state_truthy = True, state_name = n\<rparr>"

definition example_provider :: provider where
  "example_provider =
     \<lparr>time_at = (\<lambda>n. 70 * real n),
      upload_result = (\<lambda>n. if n = 2 then Inl (OtherError, ''connection reset'')
                           else Inr (example_file (if n = 0 then ''files/f0'' else ''files/f1'')
                                       (example_state ''ACTIVE''))),
      get_result = (\<lambda>n. Inr (example_file ''files/g'' (example_state ''PROCESSING''))),
      send_result = (\<lambda>n. Inr (Some '' '')),
      resolve = (\<lambda>p. ''/srv/'' @ p),
      timestamp_at = (\<lambda>n. ''2024-01-01T00:00:00'')\<rparr>"

definition example_world :: world where
  "example_world =
     \<lparr>clock_reads = 0, sleeps = [], upload_calls = [], get_calls = [], send_calls = [],
      stat_mtime = (\<lambda>p. if p = ''pdfs/acme.pdf'' then Inr 1000
                         else Inl (FileNotFoundError, ''No such file'')),
      upload_cache = Map.empty, chat_session_key = None, messages = [], rendered = [],
      interaction_logs = []\<rparr>"

text \<open>
  The example world after a first upload of \<open>pdfs/acme.pdf\<close>, and a world whose cache
  holds that file at an older modification time while two uploads have been made.
\<close>

definition example_uploaded :: world where
  "example_uploaded =
     example_world\<lparr>upload_calls := [''pdfs/acme.pdf''], clock_reads := 1,
       upload_cache := [''/srv/pdfs/acme.pdf'' \<mapsto>
         \<lparr>entry_file = example_file ''files/f0'' (example_state ''ACTIVE''),
          entry_mtime = 1000\<rparr>]\<rparr>"

definition example_stale :: world where
  "example_stale =
     example_world\<lparr>upload_calls := [''pdfs/acme.pdf'', ''pdfs/acme.pdf''],
       upload_cache := [''/srv/pdfs/acme.pdf'' \<mapsto>
         \<lparr>entry_file = example_file ''files/f0'' (example_state ''ACTIVE''),
          entry_mtime = 900\<rparr>]\<rparr>"

text \<open>The fields of the world that an upload does not touch.\<close>

definition same_chat :: "world \<Rightarrow> world \<Rightarrow> bool" where
  "same_chat w w' =
     (send_calls w' = send_calls w \<and> chat_session_key w' = chat_session_key w
      \<and> messages w' = messages w \<and> rendered w' = rendered w
      \<and> interaction_logs w' = interaction_logs w)"

text \<open>Settings to run examples under.\<close>

definition example_settings :: settings where
  "example_settings =
     \<lparr>user_email = ''broker@example.com'', active_api_key = ''key'',
      selected_model = ''models/m'', selected_lenders = [],
      lender_index = [''acme'' \<mapsto> ''pdfs/acme.pdf''],
      system_prompt = ''You are LEX.''\<rparr>"

text \<open>
  A state that is false as a truth value, and a provider that answers every poll with a
  handle in such a state.
\<close>

definition example_falsy :: "string \<Rightarrow> file_state option" where
  "example_falsy n = Some \<lparr>state_truthy = False, state_name = n\<rparr>"

definition example_settling :: provider where
  "example_settling =
     example_provider\<lparr>get_result :=
       (\<lambda>n. Inr (example_file ''files/u'' (example_falsy ''STATE_UNSPECIFIED'')))\<rparr>"

text \<open>
  A provider that refuses the upload numbered \<open>k\<close> and answers every other upload with
  a handle that is "ACTIVE".
\<close>

definition example_refusing :: "nat \<Rightarrow> provider" where
  "example_refusing k =
     example_provider\<lparr>upload_result :=
       (\<lambda>n. if n = k then Inl (OtherError, ''connection reset'')
            else Inr (example_file (if n = 0 then ''files/f0'' else ''files/f1'')
                        (example_state ''ACTIVE'')))\<rparr>"

section \<open>Properties of the lender resolver\<close>

lemma find_lender_files_loop_found:
  "fst (find_lender_files_loop ls index found missing) =
     found @ map (\<lambda>t. (t, the (index (normalize_lender_key t))))
                 (filter (\<lambda>t. index (normalize_lender_key t) \<noteq> None) ls)"
  by (induction ls arbitrary: found missing) (auto simp: Let_def split: option.splits)

lemma find_lender_files_loop_missing:
  "snd (find_lender_files_loop ls index found missing) =
     missing @ filter (\<lambda>t. index (normalize_lender_key t) = None) ls"
  by (induction ls arbitrary: found missing) (auto simp: Let_def split: option.splits)

lemma mset_filter_split:
  "mset (filter P xs) + mset (filter (\<lambda>x. \<not> P x) xs) = mset xs"
  by (induction xs) auto

text \<open>
  Claim C6. \<open>find_lender_files\<close> partitions its tokens: the matched list is, in input
  order, every token whose normalized form is a key of the index, paired with the path
  stored under that key; the missing list is, in input order, every other token; so the two
  lists together hold each input token exactly once and their lengths add up to the number
  of tokens.
\<close>

theorem find_lender_files_partition:
  "fst (find_lender_files tokens index) =
     map (\<lambda>t. (t, the (index (normalize_lender_key t))))
         (filter (\<lambda>t. index (normalize_lender_key t) \<noteq> None) tokens)
   \<and> snd (find_lender_files tokens index) =
     filter (\<lambda>t. index (normalize_lender_key t) = None) tokens
   \<and> mset (map fst (fst (find_lender_files tokens index)))
       + mset (snd (find_lender_files tokens index)) = mset tokens
   \<and> length (fst (find_lender_files tokens index))
       + length (snd (find_lender_files tokens index)) = length tokens"
proof -
  let ?P = "\<lambda>t. index (normalize_lender_key t) \<noteq> None"
  have f: "fst (find_lender_files tokens index) =
             map (\<lambda>t. (t, the (index (normalize_lender_key t)))) (filter ?P tokens)"
    by (simp add: find_lender_files_def find_lender_files_loop_found)
  have m: "snd (find_lender_files tokens index) = filter (\<lambda>t. \<not> ?P t) tokens"
    by (simp add: find_lender_files_def find_lender_files_loop_missing)
  have ms: "mset (map fst (fst (find_lender_files tokens index)))
              + mset (snd (find_lender_files tokens index)) = mset tokens"
    unfolding f m by (simp add: comp_def mset_filter_split)
  have "length (filter ?P tokens) + length (filter (\<lambda>t. \<not> ?P t) tokens) = length tokens"
    by (rule sum_length_filter_compl)
  then have len: "length (fst (find_lender_files tokens index))
              + length (snd (find_lender_files tokens index)) = length tokens"
    unfolding f m by simp
  from f m ms len show ?thesis by simp
qed

theorem find_lender_files_partition_witness:
  "find_lender_files [''Acme Capital'', ''Nonexistent Co'']
     [''acmecapital'' \<mapsto> ''pdfs/Acme Capital.pdf'',
      ''mulliganfunding'' \<mapsto> ''pdfs/mulligan_funding.pdf'']
   = ([(''Acme Capital'', ''pdfs/Acme Capital.pdf'')], [''Nonexistent Co''])"
  using find_lender_files_partition [of "[''Acme Capital'', ''Nonexistent Co'']"
     "[''acmecapital'' \<mapsto> ''pdfs/Acme Capital.pdf'',
       ''mulliganfunding'' \<mapsto> ''pdfs/mulligan_funding.pdf'']"]
  by (simp add: prod_eq_iff normalize_lender_key_def lower_def lower_char_def is_upper_def
      is_key_char_def Let_def)

subsection \<open>The first parenthesized group\<close>

lemma takeWhile_segment:
  "CHR '')'' \<notin> set seg \<Longrightarrow>
     takeWhile (\<lambda>x. x \<noteq> CHR '')'') (seg @ CHR '')'' # rest) = seg"
  by (induction seg) auto

lemma dropWhile_segment:
  "CHR '')'' \<notin> set seg \<Longrightarrow>
     dropWhile (\<lambda>x. x \<noteq> CHR '')'') (seg @ CHR '')'' # rest) = CHR '')'' # rest"
  by (induction seg) auto

lemma search_group_here:
  assumes "seg \<noteq> []" "CHR '')'' \<notin> set seg"
  shows "search_group acc (CHR ''('' # seg @ CHR '')'' # rest) = Some (acc, seg, rest)"
  using assms by (simp add: takeWhile_segment dropWhile_segment)

lemma search_group_first:
  assumes "no_group_start front" "seg \<noteq> []" "CHR '')'' \<notin> set seg"
  shows "search_group acc (front @ CHR ''('' # seg @ CHR '')'' # rest)
           = Some (acc @ front, seg, rest)"
  using assms(1)
proof (induction front arbitrary: acc rule: no_group_start.induct)
  case 1
  show ?case using search_group_here [OF assms(2) assms(3)] by simp
next
  case (2 c)
  then show ?case
    using search_group_here [OF assms(2) assms(3), of "acc @ [c]" rest] by simp
next
  case (3 c d s)
  then have ns: "no_group_start (d # s)" and cd: "c = CHR ''('' \<longrightarrow> d = CHR '')''"
    by simp_all
  have step: "search_group acc ((c # d # s) @ CHR ''('' # seg @ CHR '')'' # rest)
        = search_group (acc @ [c]) ((d # s) @ CHR ''('' # seg @ CHR '')'' # rest)"
    using cd by (cases "c = CHR ''(''") simp_all
  show ?case unfolding step using "3.IH" [OF ns, of "acc @ [c]"] by simp
qed

lemma dropWhile_stop:
  "\<not> P a \<Longrightarrow> dropWhile P (x @ a # r) = dropWhile P x @ a # r"
  by (induction x) auto

lemma strip_keeps_middle:
  assumes "\<not> is_space a" "\<not> is_space b"
  shows "strip (x @ a # m @ b # y)
           = dropWhile is_space x @ a # m @ b # rev (dropWhile is_space (rev y))"
proof -
  have "dropWhile is_space (x @ a # m @ b # y) = dropWhile is_space x @ a # m @ b # y"
    using assms(1) by (rule dropWhile_stop)
  moreover have "rev (dropWhile is_space x @ a # m @ b # y)
      = rev y @ b # (rev m @ a # rev (dropWhile is_space x))"
    by simp
  moreover have "dropWhile is_space (rev y @ b # (rev m @ a # rev (dropWhile is_space x)))
      = dropWhile is_space (rev y) @ b # (rev m @ a # rev (dropWhile is_space x))"
    using assms(2) by (rule dropWhile_stop)
  ultimately show ?thesis by (simp add: strip_def)
qed

lemma paren_not_space: "\<not> is_space CHR ''(''" "\<not> is_space CHR '')''"
  by (simp_all add: is_space_def)

text \<open>
  Claim C8. Let the input hold a first parenthesized group \<open>(segment)\<close> (nothing
  before it can begin a group, the segment is not empty and holds no closing parenthesis)
  and, somewhere after it, a further parenthesized text \<open>(later)\<close>. Then the lenders
  are the tokens of the first segment alone, the question is the trimmed concatenation of
  the text before and the text after the first group, and the later group stands in the
  question as it was written, parentheses included.
\<close>

theorem parse_first_group_only:
  assumes "no_group_start front" "segment \<noteq> []" "CHR '')'' \<notin> set segment"
  shows "parse_lenders_and_question
           (front @ ''('' @ segment @ '')'' @ mid @ ''('' @ later @ '')'' @ rest)
         = (map strip (filter (\<lambda>token. strip token \<noteq> []) (lender_split segment)),
            strip (front @ mid @ ''('' @ later @ '')'' @ rest))
       \<and> (\<exists>u v. snd (parse_lenders_and_question
                        (front @ ''('' @ segment @ '')'' @ mid @ ''('' @ later @ '')'' @ rest))
                 = u @ ''('' @ later @ '')'' @ v)"
proof -
  let ?tail = "mid @ ''('' @ later @ '')'' @ rest"
  have s: "search_group [] (front @ CHR ''('' # segment @ CHR '')'' # ?tail)
             = Some ([] @ front, segment, ?tail)"
    using assms by (rule search_group_first)
  have p: "parse_lenders_and_question (front @ ''('' @ segment @ '')'' @ ?tail)
         = (map strip (filter (\<lambda>token. strip token \<noteq> []) (lender_split segment)),
            strip (front @ ?tail))"
    using s by (simp add: parse_lenders_and_question_def)
  have "strip ((front @ mid) @ CHR ''('' # later @ CHR '')'' # rest)
       = dropWhile is_space (front @ mid) @ CHR ''('' # later @ CHR '')''
           # rev (dropWhile is_space (rev rest))"
    using paren_not_space by (rule strip_keeps_middle)
  then have k: "strip (front @ ?tail)
       = dropWhile is_space (front @ mid) @ ''('' @ later @ '')''
           @ rev (dropWhile is_space (rev rest))"
    by simp
  have "\<exists>u v. strip (front @ ?tail) = u @ ''('' @ later @ '')'' @ v"
    unfolding k by blast
  with p show ?thesis by simp
qed

theorem parse_first_group_only_witness:
  "parse_lenders_and_question ''(acme, mulligan) minimum FICO (see page 3) please''
     = ([''acme'', ''mulligan''], ''minimum FICO (see page 3) please'')"
  using parse_first_group_only [of "''''" "''acme, mulligan''" "'' minimum FICO ''"
      "''see page 3''" "'' please''"]
  by (simp add: lender_split_def match_separator_def match_alternative_def
      match_keyword_def next_is_word_def is_space_def is_word_def is_alnum_def
      lower_char_def is_upper_def Let_def strip_def)

subsection \<open>Splitting a joined lender list\<close>

text \<open>Facts about the character classes.\<close>

lemma space_not_word: "is_space c \<Longrightarrow> \<not> is_word c"
  by (auto simp: is_space_def is_word_def is_alnum_def Let_def)

lemma space_lower: "is_space c \<Longrightarrow> lower_char c = c"
  by (auto simp: is_space_def lower_char_def is_upper_def Let_def)

lemma symbol_not_word: "is_symbol c \<Longrightarrow> \<not> is_word c"
  by (auto simp: is_symbol_def is_word_def is_alnum_def Let_def)

lemma symbol_lower: "is_symbol c \<Longrightarrow> lower_char c = c"
  by (auto simp: is_symbol_def lower_char_def is_upper_def Let_def)

lemma symbol_not_space: "is_symbol c \<Longrightarrow> \<not> is_space c"
  by (auto simp: is_symbol_def is_space_def Let_def)

lemma letters_not_space: "c \<in> set ''andor'' \<Longrightarrow> \<not> is_space c"
  by (auto simp: is_space_def)
lemma letters_not_symbol: "c \<in> set ''andor'' \<Longrightarrow> \<not> is_symbol c"
  by (auto simp: is_symbol_def)

lemma lower_letter_not_space: "lower_char c \<in> set ''andor'' \<Longrightarrow> \<not> is_space c"
  using space_lower letters_not_space by metis

lemma lower_letter_not_symbol: "lower_char c \<in> set ''andor'' \<Longrightarrow> \<not> is_symbol c"
  using symbol_lower letters_not_symbol by metis

lemma lower_paren: "lower_char c \<in> set ''andor'' \<Longrightarrow> c \<noteq> CHR '')''"
  by (auto simp: lower_char_def is_upper_def)


text \<open>A keyword match inside a name does not depend on the separator that follows the name.\<close>

lemma starts_with_ci_cut:
  "starts_with_ci w (b @ r) \<Longrightarrow> r = [] \<or> lower_char (hd r) \<notin> set w \<Longrightarrow> starts_with_ci w b"
proof (induction w arbitrary: b)
  case Nil
  then show ?case by simp
next
  case (Cons x ws)
  show ?case
  proof (cases b)
    case Nil
    with Cons.prems show ?thesis by (cases r) auto
  next
    case (Cons c b')
    with Cons.prems Cons.IH [of b'] show ?thesis by auto
  qed
qed

lemma starts_with_ci_length: "starts_with_ci w b \<Longrightarrow> length w \<le> length b"
  by (induction w b rule: starts_with_ci.induct) auto

lemma starts_with_ci_append: "starts_with_ci w b \<Longrightarrow> starts_with_ci w (b @ r)"
  by (induction w b rule: starts_with_ci.induct) auto

lemma next_is_word_append:
  "r = [] \<or> \<not> is_word (hd r) \<Longrightarrow> next_is_word (b @ r) = next_is_word b"
  by (cases b; cases r) (auto simp: next_is_word_def)


lemma sep_start_not_word: "sep_start c \<Longrightarrow> \<not> is_word c"
  using space_not_word symbol_not_word by (auto simp: sep_start_def)

lemma sep_start_not_letter: "sep_start c \<Longrightarrow> lower_char c \<notin> set ''andor''"
  using lower_letter_not_space lower_letter_not_symbol by (auto simp: sep_start_def)

lemma match_keyword_context:
  assumes "match_keyword p w b = None" "r = [] \<or> sep_start (hd r)" "set w \<subseteq> set ''andor''"
  shows "match_keyword p w (b @ r) = None"
proof (rule ccontr)
  assume "match_keyword p w (b @ r) \<noteq> None"
  then have np: "\<not> p" and sw: "starts_with_ci w (b @ r)"
    and nw: "\<not> next_is_word (drop (length w) (b @ r))"
    by (auto simp: match_keyword_def split: if_splits)
  have r1: "r = [] \<or> lower_char (hd r) \<notin> set w"
    using assms(2,3) sep_start_not_letter by blast
  have swb: "starts_with_ci w b" using sw r1 by (rule starts_with_ci_cut)
  then have len: "length w \<le> length b" by (rule starts_with_ci_length)
  have r2: "r = [] \<or> \<not> is_word (hd r)" using assms(2) sep_start_not_word by blast
  have "drop (length w) (b @ r) = drop (length w) b @ r" using len by simp
  with nw r2 have "\<not> next_is_word (drop (length w) b)" by (simp add: next_is_word_append)
  with np swb have "match_keyword p w b \<noteq> None" by (simp add: match_keyword_def)
  with assms(1) show False by simp
qed

lemma has_keyword_drop_space:
  "\<not> has_keyword p s \<Longrightarrow>
   \<not> has_keyword (if takeWhile is_space s = [] then p else is_word (last (takeWhile is_space s)))
        (dropWhile is_space s)"
proof (induction s arbitrary: p)
  case Nil
  then show ?case by simp
next
  case (Cons c s)
  show ?case
  proof (cases "is_space c")
    case False
    with Cons.prems show ?thesis by simp
  next
    case True
    from Cons.prems have "\<not> has_keyword (is_word c) s" by simp
    from Cons.IH [OF this] True show ?thesis
      by (cases "takeWhile is_space s = []") (auto)
  qed
qed


text \<open>The scan crosses a clean name without a match and keeps it in one piece.\<close>

lemma no_separator_in_name:
  assumes ne: "s \<noteq> []" and last: "\<not> is_space (last s)"
    and sym: "list_all (\<lambda>c. \<not> is_symbol c) s"
    and kw: "\<not> has_keyword p s" and r: "r = [] \<or> sep_start (hd r)"
  shows "match_separator p (s @ r) = None"
proof -
  let ?lead = "takeWhile is_space s"
  let ?b = "dropWhile is_space s"
  let ?p1 = "if ?lead = [] then p else is_word (last ?lead)"
  have mem: "last s \<in> set s" using ne by simp
  have tw: "takeWhile is_space (s @ r) = ?lead"
    using mem last by (rule takeWhile_append1)
  have dw: "dropWhile is_space (s @ r) = ?b @ r"
    using mem last by (rule dropWhile_append1)
  have bne: "?b \<noteq> []" using mem last by (auto simp: dropWhile_eq_Nil_conv)
  then obtain x b' where b: "?b = x # b'" by (cases ?b) auto
  have "x \<in> set s" using b set_dropWhileD [of x is_space s] by simp
  then have xs: "\<not> is_symbol x" using sym by (simp add: list_all_iff)
  have "\<not> has_keyword ?p1 ?b" using kw by (rule has_keyword_drop_space)
  then have k1: "match_keyword ?p1 ''and'' ?b = None" and k2: "match_keyword ?p1 ''or'' ?b = None"
    unfolding b by simp_all
  have c1: "match_keyword ?p1 ''and'' (?b @ r) = None"
    using k1 r by (rule match_keyword_context) simp
  have c2: "match_keyword ?p1 ''or'' (?b @ r) = None"
    using k2 r by (rule match_keyword_context) simp
  have "match_alternative ?p1 (?b @ r) = None"
    using xs c1 c2 unfolding b by (simp add: match_alternative_def is_symbol_def)
  then show ?thesis
    unfolding match_separator_def tw dw by (simp add: Let_def)
qed

lemma split_loop_name:
  assumes "n \<noteq> []" "\<not> is_space (last n)" "list_all (\<lambda>c. \<not> is_symbol c) n"
    "\<not> has_keyword p n" "r = [] \<or> sep_start (hd r)"
  shows "split_loop p piece (n @ r) = split_loop (is_word (last n)) (piece @ n) r"
  using assms(1-4)
proof (induction n arbitrary: p piece)
  case Nil
  then show ?case by simp
next
  case (Cons c n)
  have none: "match_separator p ((c # n) @ r) = None"
    using Cons.prems assms(5) by (rule no_separator_in_name)
  have step: "split_loop p piece ((c # n) @ r) = split_loop (is_word c) (piece @ [c]) (n @ r)"
    using none by (subst split_loop.simps) simp
  show ?case
  proof (cases "n = []")
    case True
    then show ?thesis using step by simp
  next
    case False
    have "split_loop (is_word c) (piece @ [c]) (n @ r)
            = split_loop (is_word (last n)) ((piece @ [c]) @ n) r"
      using False Cons.prems by (intro Cons.IH) auto
    then show ?thesis using step False by simp
  qed
qed

text \<open>At the start of a separator the pattern matches exactly the separator.\<close>

lemma takeWhile_all: "list_all P xs \<Longrightarrow> ys = [] \<or> \<not> P (hd ys) \<Longrightarrow> takeWhile P (xs @ ys) = xs"
  by (induction xs) (auto simp: takeWhile_eq_Nil_iff)
lemma dropWhile_all: "list_all P xs \<Longrightarrow> ys = [] \<or> \<not> P (hd ys) \<Longrightarrow> dropWhile P (xs @ ys) = ys"
  by (induction xs) (auto simp: dropWhile_eq_self_iff)

lemma last_space_not_word: "list_all is_space xs \<Longrightarrow> xs \<noteq> [] \<Longrightarrow> \<not> is_word (last xs)"
  using space_not_word by (auto simp: list_all_iff)

lemma trail_result:
  assumes "list_all is_space trail" "rest = [] \<or> \<not> is_space (hd rest)"
  shows "dropWhile is_space (trail @ rest) = rest"
    and "(if takeWhile is_space (trail @ rest) = [] then False
          else is_word (last (takeWhile is_space (trail @ rest)))) = False"
  using assms last_space_not_word [of trail]
  by (simp_all add: takeWhile_all dropWhile_all)

lemma match_symbol_separator:
  assumes "list_all is_space lead" "is_symbol c" "list_all is_space trail"
    "rest = [] \<or> \<not> is_space (hd rest)"
  shows "match_separator p (lead @ c # trail @ rest) = Some (rest, False)"
proof -
  have c: "\<not> is_space c" using assms(2) by (rule symbol_not_space)
  have tw: "takeWhile is_space (lead @ c # trail @ rest) = lead"
    using assms(1) c by (simp add: takeWhile_all)
  have dw: "dropWhile is_space (lead @ c # trail @ rest) = c # trail @ rest"
    using assms(1) c by (simp add: dropWhile_all)
  have alt: "match_alternative q (c # trail @ rest) = Some (trail @ rest, False)" for q
    using assms(2) by (auto simp: match_alternative_def is_symbol_def match_keyword_def lower_char_def is_upper_def)
  show ?thesis
    unfolding match_separator_def tw dw
    using trail_result [OF assms(3) assms(4)] by (simp add: Let_def alt)
qed


lemma lower_and: "lower core = ''and'' \<Longrightarrow>
   \<exists>c1 c2 c3. core = [c1, c2, c3] \<and> lower_char c1 = CHR ''a'' \<and> lower_char c2 = CHR ''n'' \<and> lower_char c3 = CHR ''d''"
  by (auto simp: lower_def map_eq_Cons_conv)

lemma lower_or: "lower core = ''or'' \<Longrightarrow>
   \<exists>c1 c2. core = [c1, c2] \<and> lower_char c1 = CHR ''o'' \<and> lower_char c2 = CHR ''r''"
  by (auto simp: lower_def map_eq_Cons_conv)

lemma match_keyword_alternative:
  assumes "lower core = ''and'' \<or> lower core = ''or''" "trail \<noteq> []" "list_all is_space trail"
  shows "match_alternative False (core @ trail @ rest) = Some (trail @ rest, True)"
proof -
  have nw: "\<not> next_is_word (trail @ rest)"
    using assms(2,3) space_not_word by (cases trail) (auto simp: next_is_word_def)
  from assms(1) show ?thesis
  proof
    assume "lower core = ''and''"
    then obtain c1 c2 c3 where core: "core = [c1, c2, c3]"
      and l: "lower_char c1 = CHR ''a''" "lower_char c2 = CHR ''n''" "lower_char c3 = CHR ''d''"
      using lower_and by blast
    have "\<not> is_symbol c1" using l(1) by (intro lower_letter_not_symbol) simp
    then have c1: "c1 \<noteq> CHR '',''" "c1 \<noteq> CHR ''/''" "c1 \<noteq> CHR ''&''"
      by (auto simp: is_symbol_def)
    have "match_keyword False ''and'' (core @ trail @ rest) = Some (trail @ rest)"
      using l nw by (simp add: core match_keyword_def)
    then show ?thesis using c1 by (simp add: match_alternative_def core)
  next
    assume "lower core = ''or''"
    then obtain c1 c2 where core: "core = [c1, c2]"
      and l: "lower_char c1 = CHR ''o''" "lower_char c2 = CHR ''r''"
      using lower_or by blast
    have "\<not> is_symbol c1" using l(1) by (intro lower_letter_not_symbol) simp
    then have c1: "c1 \<noteq> CHR '',''" "c1 \<noteq> CHR ''/''" "c1 \<noteq> CHR ''&''"
      by (auto simp: is_symbol_def)
    have a: "match_keyword False ''and'' (core @ trail @ rest) = None"
      using l by (simp add: core match_keyword_def)
    have "match_keyword False ''or'' (core @ trail @ rest) = Some (trail @ rest)"
      using l nw by (simp add: core match_keyword_def)
    then show ?thesis using c1 a by (simp add: match_alternative_def core)
  qed
qed

lemma core_starts_unspaced:
  assumes "lower core = ''and'' \<or> lower core = ''or''"
  shows "core \<noteq> [] \<and> \<not> is_space (hd core)"
proof -
  from assms have "core \<noteq> [] \<and> lower_char (hd core) \<in> set ''andor''"
    using lower_and lower_or by fastforce
  then show ?thesis using lower_letter_not_space by blast
qed

lemma match_keyword_separator:
  assumes "lead \<noteq> []" "list_all is_space lead" "lower core = ''and'' \<or> lower core = ''or''"
    "trail \<noteq> []" "list_all is_space trail" "rest = [] \<or> \<not> is_space (hd rest)"
  shows "match_separator p (lead @ core @ trail @ rest) = Some (rest, False)"
proof -
  have c: "core @ trail @ rest = [] \<or> \<not> is_space (hd (core @ trail @ rest))"
    using core_starts_unspaced [OF assms(3)] by simp
  have tw: "takeWhile is_space (lead @ core @ trail @ rest) = lead"
    using assms(2) c by (rule takeWhile_all)
  have dw: "dropWhile is_space (lead @ core @ trail @ rest) = core @ trail @ rest"
    using assms(2) c by (rule dropWhile_all)
  have p1: "(if lead = [] then p else is_word (last lead)) = False"
    using assms(1,2) last_space_not_word by simp
  have alt: "match_alternative False (core @ trail @ rest) = Some (trail @ rest, True)"
    using assms(3,4,5) by (rule match_keyword_alternative)
  have t: "takeWhile is_space (trail @ rest) = trail"
    using assms(5,6) by (rule takeWhile_all)
  show ?thesis
    unfolding match_separator_def tw dw
    using trail_result(1) [OF assms(5) assms(6)] assms(4) last_space_not_word [OF assms(5) assms(4)]
    by (simp add: Let_def p1 alt t)
qed

lemma symbol_separator_form:
  assumes "symbol_separator d"
  obtains lead c trail where "d = lead @ c # trail" "list_all is_space lead" "is_symbol c"
    "list_all is_space trail"
proof -
  from assms obtain c trail where dw: "dropWhile is_space d = c # trail"
    and c: "is_symbol c" and t: "list_all is_space trail"
    by (auto simp: symbol_separator_def split: list.splits)
  have "d = takeWhile is_space d @ c # trail"
    using takeWhile_dropWhile_id [of is_space d] dw by simp
  moreover have "list_all is_space (takeWhile is_space d)"
    by (auto simp: list_all_iff dest: set_takeWhileD)
  ultimately show thesis using c t that by blast
qed

lemma keyword_separator_form:
  assumes "keyword_separator d"
  obtains lead core trail where "d = lead @ core @ trail" "lead \<noteq> []" "list_all is_space lead"
    "lower core = ''and'' \<or> lower core = ''or''" "trail \<noteq> []" "list_all is_space trail"
proof -
  let ?lead = "takeWhile is_space d"
  let ?body = "dropWhile is_space d"
  let ?core = "takeWhile (\<lambda>c. \<not> is_space c) ?body"
  let ?trail = "dropWhile (\<lambda>c. \<not> is_space c) ?body"
  have "d = ?lead @ ?core @ ?trail" by simp
  moreover have "list_all is_space ?lead"
    by (auto simp: list_all_iff dest: set_takeWhileD)
  moreover have "?lead \<noteq> []" "lower ?core = ''and'' \<or> lower ?core = ''or''"
    "?trail \<noteq> []" "list_all is_space ?trail"
    using assms by (simp_all add: keyword_separator_def Let_def)
  ultimately show thesis using that by blast
qed

lemma separator_match:
  assumes "separator d" "rest = [] \<or> \<not> is_space (hd rest)"
  shows "match_separator p (d @ rest) = Some (rest, False)"
proof (cases "symbol_separator d")
  case True
  then obtain lead c trail where d: "d = lead @ c # trail" and f: "list_all is_space lead"
    "is_symbol c" "list_all is_space trail"
    by (rule symbol_separator_form)
  show ?thesis using match_symbol_separator [OF f assms(2), of p] by (simp add: d)
next
  case False
  with assms(1) have "keyword_separator d" by (simp add: separator_def)
  then obtain lead core trail where d: "d = lead @ core @ trail" and f: "lead \<noteq> []"
    "list_all is_space lead" "lower core = ''and'' \<or> lower core = ''or''" "trail \<noteq> []"
    "list_all is_space trail"
    by (rule keyword_separator_form)
  show ?thesis using match_keyword_separator [OF f assms(2), of p] by (simp add: d)
qed

lemma separator_start:
  assumes "separator d"
  shows "d \<noteq> [] \<and> sep_start (hd d)"
proof (cases "symbol_separator d")
  case True
  then obtain lead c trail where d: "d = lead @ c # trail" and f: "list_all is_space lead"
    "is_symbol c" "list_all is_space trail"
    by (rule symbol_separator_form)
  show ?thesis using f by (cases lead) (auto simp: d sep_start_def)
next
  case False
  with assms(1) have "keyword_separator d" by (simp add: separator_def)
  then obtain lead core trail where d: "d = lead @ core @ trail" and f: "lead \<noteq> []"
    "list_all is_space lead" "lower core = ''and'' \<or> lower core = ''or''" "trail \<noteq> []"
    "list_all is_space trail"
    by (rule keyword_separator_form)
  show ?thesis using f by (cases lead) (auto simp: d sep_start_def)
qed

lemma separator_no_paren:
  assumes "separator d"
  shows "CHR '')'' \<notin> set d"
proof -
  have sp: "list_all is_space xs \<Longrightarrow> CHR '')'' \<notin> set xs" for xs
    using paren_not_space(2) by (auto simp: list_all_iff)
  show ?thesis
  proof (cases "symbol_separator d")
    case True
    then obtain lead c trail where d: "d = lead @ c # trail" and f: "list_all is_space lead"
      "is_symbol c" "list_all is_space trail"
      by (rule symbol_separator_form)
    have "c \<noteq> CHR '')''" using f(2) by (auto simp: is_symbol_def)
    then show ?thesis using sp [OF f(1)] sp [OF f(3)] by (simp add: d)
  next
    case False
    with assms(1) have "keyword_separator d" by (simp add: separator_def)
    then obtain lead core trail where d: "d = lead @ core @ trail" and f: "lead \<noteq> []"
      "list_all is_space lead" "lower core = ''and'' \<or> lower core = ''or''" "trail \<noteq> []"
      "list_all is_space trail"
      by (rule keyword_separator_form)
    have "CHR '')'' \<notin> set core"
      using f(3) lower_and [of core] lower_or [of core] lower_paren by fastforce
    then show ?thesis using sp [OF f(2)] sp [OF f(5)] by (simp add: d)
  qed
qed


text \<open>The joined list is split back into its names.\<close>

lemma clean_name_facts:
  assumes "clean_name n"
  shows "n \<noteq> []" "\<not> is_space (hd n)" "\<not> is_space (last n)"
    "list_all (\<lambda>c. \<not> is_symbol c) n" "\<not> has_keyword False n" "CHR '')'' \<notin> set n"
  using assms by (auto simp: clean_name_def list_all_iff)

lemma join_names_start:
  "names \<noteq> [] \<Longrightarrow> clean_name (hd names) \<Longrightarrow>
     join_names names seps \<noteq> [] \<and> hd (join_names names seps) = hd (hd names)"
  by (induction names seps rule: join_names.induct) (auto simp: clean_name_def)

lemma split_joined:
  assumes "names \<noteq> []" "\<forall>n\<in>set names. clean_name n" "\<forall>d\<in>set seps. separator d"
    "length names \<le> Suc (length seps)"
  shows "split_loop False [] (join_names names seps) = names"
  using assms
proof (induction names seps rule: join_names.induct)
  case (1 seps)
  then show ?case by simp
next
  case (2 n seps)
  then have c: "clean_name n" by simp
  have "split_loop False [] (n @ []) = split_loop (is_word (last n)) ([] @ n) []"
    using clean_name_facts(1,3,4,5) [OF c] by (rule split_loop_name) simp
  then show ?case by simp
next
  case (3 n m ns)
  then show ?case by simp
next
  case (4 n m ns d ds)
  let ?J = "join_names (m # ns) ds"
  have c: "clean_name n" and cm: "clean_name m" and sd: "separator d" using "4.prems" by simp_all
  have J: "?J \<noteq> []" "hd ?J = hd m"
    using join_names_start [of "m # ns" ds] cm by simp_all
  have Jstart: "?J = [] \<or> \<not> is_space (hd ?J)"
    using J clean_name_facts(2) [OF cm] by simp
  have dstart: "d @ ?J = [] \<or> sep_start (hd (d @ ?J))"
    using separator_start [OF sd] by simp
  have "split_loop False [] (n @ (d @ ?J)) = split_loop (is_word (last n)) ([] @ n) (d @ ?J)"
    using clean_name_facts(1,3,4,5) [OF c] dstart by (rule split_loop_name)
  also have "\<dots> = n # split_loop False [] ?J"
    using separator_match [OF sd Jstart, of "is_word (last n)"] separator_start [OF sd]
    by (subst split_loop.simps) simp
  also have "split_loop False [] ?J = m # ns"
    using "4.prems" by (intro "4.IH") auto
  finally show ?case by simp
qed

lemma strip_clean: "clean_name n \<Longrightarrow> strip n = n"
proof -
  assume c: "clean_name n"
  have n: "n \<noteq> []" "\<not> is_space (hd n)" "\<not> is_space (last n)"
    using clean_name_facts [OF c] by simp_all
  have "dropWhile is_space n = n" using n(1,2) by (cases n) auto
  moreover have "dropWhile is_space (rev n) = rev n"
    using n(1,3) by (cases "rev n") (auto simp: last_rev [symmetric] simp del: last_rev)
  ultimately show ?thesis by (simp add: strip_def)
qed

lemma strip_all_clean:
  "\<forall>n\<in>set names. clean_name n \<Longrightarrow>
     map strip (filter (\<lambda>token. strip token \<noteq> []) names) = names"
  by (induction names) (auto simp: strip_clean clean_name_def)

lemma join_names_no_paren:
  "\<forall>n\<in>set names. clean_name n \<Longrightarrow> \<forall>d\<in>set seps. separator d \<Longrightarrow>
     CHR '')'' \<notin> set (join_names names seps)"
  by (induction names seps rule: join_names.induct)
     (auto simp: clean_name_facts(6) separator_no_paren)

text \<open>
  Claim C1, amended. Take any list of names that are each clean (not empty, no white space
  at either end, none of the characters comma, slash, ampersand, plus and closing
  parenthesis, neither \<open>and\<close> nor \<open>or\<close> as a word of its own) and write them
  in parentheses with one separator between neighbours, each separator being a comma, slash,
  ampersand or plus with any white space around it, or the word \<open>and\<close> or
  \<open>or\<close> in any letter case with white space on both sides. Then
  \<open>parse_lenders_and_question\<close> returns exactly the names, in their order.
\<close>

theorem parse_recovers_clean_names:
  assumes "\<forall>n\<in>set names. clean_name n" "\<forall>d\<in>set seps. separator d"
    "length seps = length names - 1"
  shows "fst (parse_lenders_and_question (''('' @ join_names names seps @ '')'')) = names"
proof (cases "names = []")
  case True
  then show ?thesis by (simp add: parse_lenders_and_question_def)
next
  case False
  let ?J = "join_names names seps"
  have J: "?J \<noteq> []" using join_names_start [of names seps] False assms(1) by simp
  have np: "CHR '')'' \<notin> set ?J" using assms(1,2) by (rule join_names_no_paren)
  have s: "search_group [] (CHR ''('' # ?J @ CHR '')'' # []) = Some ([], ?J, [])"
    using J np by (rule search_group_here)
  have len: "length names \<le> Suc (length seps)" using assms(3) by simp
  have sp: "lender_split ?J = names"
    unfolding lender_split_def using False assms(1,2) len by (rule split_joined)
  show ?thesis
    using s sp strip_all_clean [OF assms(1)] by (simp add: parse_lenders_and_question_def)
qed



theorem parse_recovers_clean_names_witness:
  "clean_name ''Acme Capital'' \<and> clean_name ''mulligan'' \<and> clean_name ''B.H. Brandy''
   \<and> separator '', '' \<and> separator '' AND ''
   \<and> join_names [''Acme Capital'', ''mulligan'', ''B.H. Brandy''] ['', '', '' AND '']
        = ''Acme Capital, mulligan AND B.H. Brandy''
   \<and> fst (parse_lenders_and_question ''(Acme Capital, mulligan AND B.H. Brandy)'')
        = [''Acme Capital'', ''mulligan'', ''B.H. Brandy'']"
proof -
  have n: "\<forall>n\<in>set [''Acme Capital'', ''mulligan'', ''B.H. Brandy'']. clean_name n"
    by (simp add: clean_name_def is_symbol_def match_keyword_def next_is_word_def
        is_space_def is_word_def is_alnum_def lower_char_def is_upper_def Let_def)
  have d: "\<forall>d\<in>set ['', '', '' AND '']. separator d"
    by (simp add: separator_def symbol_separator_def keyword_separator_def is_symbol_def
        lower_def is_space_def lower_char_def is_upper_def Let_def)
  have l: "length ['', '', '' AND '']
             = length [''Acme Capital'', ''mulligan'', ''B.H. Brandy''] - 1"
    by simp
  show ?thesis
    using n d parse_recovers_clean_names [OF n d l] by simp
qed

text \<open>
  The claim as first stated, for any nonempty names, fails: the two names
  \<open>Smith and Sons\<close> and \<open>Acme\<close> joined by a comma come back as three tokens.
\<close>

theorem parse_names_counterexample:
  "join_names [''Smith and Sons'', ''Acme''] ['', ''] = ''Smith and Sons, Acme''
   \<and> fst (parse_lenders_and_question ''(Smith and Sons, Acme)'')
        = [''Smith'', ''Sons'', ''Acme'']
   \<and> fst (parse_lenders_and_question ''(Smith and Sons, Acme)'')
        \<noteq> [''Smith and Sons'', ''Acme'']"
  by (simp add: parse_lenders_and_question_def lender_split_def match_separator_def
      match_alternative_def match_keyword_def next_is_word_def is_space_def is_word_def
      is_alnum_def lower_char_def is_upper_def Let_def strip_def)

subsection \<open>The index of the PDF directory: properties\<close>

lemma fold_update_lookup:
  "fold (\<lambda>n m. m(key n \<mapsto> val n)) xs m0 k =
     (if filter (\<lambda>n. key n = k) xs = [] then m0 k
      else Some (val (last (filter (\<lambda>n. key n = k) xs))))"
  by (induction xs arbitrary: m0) auto

lemma sorted_le_last:
  fixes b :: "'a::linorder"
  shows "sorted ys \<Longrightarrow> b \<in> set ys \<Longrightarrow> b \<le> last ys"
  by (induction ys) auto

lemma sorted_last_max:
  fixes b :: "'a::linorder"
  assumes "sorted ys" "b \<in> set ys" "\<forall>c\<in>set ys. c \<le> b"
  shows "last ys = b"
proof -
  have ne: "ys \<noteq> []" using assms(2) by auto
  then have "last ys \<in> set ys" by simp
  then have "last ys \<le> b" using assms(3) by blast
  moreover have "b \<le> last ys" using assms(1,2) by (rule sorted_le_last)
  ultimately show ?thesis by simp
qed

lemma index_lookup:
  assumes "fs pdf_dir = Some entries"
  shows "index_lender_pdfs fs pdf_dir k =
     (let same = filter (\<lambda>n. normalize_lender_key (stem n) = k) (sort (filter is_pdf_name entries))
      in if same = [] then None else Some (pdf_dir @ ''/'' @ last same))"
  using assms by (simp add: index_lender_pdfs_def fold_update_lookup Let_def)

text \<open>
  Claim C7. A directory that does not exist gives the empty index. In an existing
  directory, let \<open>b\<close> be a PDF file such that every PDF file whose stem normalizes
  to the same key as the stem of \<open>b\<close> comes at or before \<open>b\<close> in the order
  of names. Then the index maps that key to the path of \<open>b\<close>: of the files that
  collide on a key, the last in sorted order is the one kept.
\<close>

theorem index_last_sorted_wins:
  "(fs pdf_dir = None \<longrightarrow> index_lender_pdfs fs pdf_dir = Map.empty)
   \<and> (fs pdf_dir = Some entries \<and> b \<in> set entries \<and> is_pdf_name b
        \<and> (\<forall>c\<in>set entries. is_pdf_name c
              \<and> normalize_lender_key (stem c) = normalize_lender_key (stem b) \<longrightarrow> c \<le> b)
      \<longrightarrow> index_lender_pdfs fs pdf_dir (normalize_lender_key (stem b)) = Some (pdf_dir @ ''/'' @ b))"
proof (intro conjI impI)
  assume "fs pdf_dir = None"
  then show "index_lender_pdfs fs pdf_dir = Map.empty" by (simp add: index_lender_pdfs_def)
next
  assume a: "fs pdf_dir = Some entries \<and> b \<in> set entries \<and> is_pdf_name b
        \<and> (\<forall>c\<in>set entries. is_pdf_name c
              \<and> normalize_lender_key (stem c) = normalize_lender_key (stem b) \<longrightarrow> c \<le> b)"
  let ?k = "normalize_lender_key (stem b)"
  let ?same = "filter (\<lambda>n. normalize_lender_key (stem n) = ?k) (sort (filter is_pdf_name entries))"
  have s: "sorted ?same" by (simp add: sorted_wrt_filter)
  have m: "b \<in> set ?same" using a by simp
  have u: "\<forall>c\<in>set ?same. c \<le> b" using a by auto
  have "last ?same = b" using s m u by (rule sorted_last_max)
  moreover have "?same \<noteq> []"
  proof
    assume e: "?same = []"
    from m show False unfolding e by simp
  qed
  ultimately show "index_lender_pdfs fs pdf_dir ?k = Some (pdf_dir @ ''/'' @ b)"
    using a index_lookup [of fs pdf_dir entries ?k] by (simp add: Let_def)
qed

theorem index_last_sorted_wins_witness:
  "index_lender_pdfs
     (\<lambda>p. if p = ''pdfs'' then Some [''acme.pdf'', ''Acme!.pdf'', ''notes.txt''] else None)
     ''pdfs'' ''acme'' = Some ''pdfs/acme.pdf''
   \<and> index_lender_pdfs
     (\<lambda>p. if p = ''pdfs'' then Some [''acme.pdf'', ''Acme!.pdf'', ''notes.txt''] else None)
     ''nowhere'' = Map.empty"
  using index_last_sorted_wins
    [of "\<lambda>p. if p = ''pdfs'' then Some [''acme.pdf'', ''Acme!.pdf'', ''notes.txt''] else None"
        "''pdfs''" "[''acme.pdf'', ''Acme!.pdf'', ''notes.txt'']" "''acme.pdf''"]
    index_last_sorted_wins
    [of "\<lambda>p. if p = ''pdfs'' then Some [''acme.pdf'', ''Acme!.pdf'', ''notes.txt''] else None"
        "''nowhere''" "[]" "[]"]
  by (simp add: is_pdf_name_def stem_def normalize_lender_key_def lower_def lower_char_def
      is_upper_def is_key_char_def Let_def)

section \<open>Properties of the readiness wait\<close>

lemma wait_loop_done:
  "\<not> state_is current ''PROCESSING'' \<Longrightarrow>
     wait_loop env start timeout w current = Some (w, Inr current)"
  by (subst wait_loop.simps) simp

lemma wait_loop_timeout:
  "state_is current ''PROCESSING'' \<Longrightarrow> time_at env (clock_reads w) - start > timeout \<Longrightarrow>
     wait_loop env start timeout w current
       = Some (w\<lparr>clock_reads := Suc (clock_reads w)\<rparr>,
               Inl (TimeoutError,
                 ''Timed out while waiting for '' @ label current @ '' to process.''))"
  by (subst wait_loop.simps) (simp add: read_clock_def)

lemma wait_loop_round:
  assumes "state_is current ''PROCESSING''" "\<not> time_at env (clock_reads w) - start > timeout"
    "get_result env (length (get_calls w)) = Inr next_obj"
  shows "wait_loop env start timeout w current
       = wait_loop env start timeout
           (w\<lparr>clock_reads := Suc (clock_reads w), sleeps := sleeps w @ [2],
              get_calls := get_calls w @ [file_name current]\<rparr>) next_obj"
  using assms by (subst wait_loop.simps) (simp add: read_clock_def get_file_def)

lemma after_polls_0: "after_polls w h 0 = w"
  by (simp add: after_polls_def)

lemma after_polls_Suc:
  "after_polls w h (Suc k)
     = (after_polls w h k)\<lparr>clock_reads := Suc (clock_reads (after_polls w h k)),
          sleeps := sleeps (after_polls w h k) @ [2],
          get_calls := get_calls (after_polls w h k) @ [file_name (h k)]\<rparr>"
  by (simp add: after_polls_def replicate_append_same)

lemma after_polls_counts:
  "clock_reads (after_polls w h k) = clock_reads w + k"
  "length (get_calls (after_polls w h k)) = length (get_calls w) + k"
  by (simp_all add: after_polls_def)

text \<open>
  The loop started after the first clock reading: \<open>k\<close> rounds that stay in "PROCESSING"
  without timing out lead to the \<open>k\<close>-th handle.
\<close>

lemma wait_loop_rounds:
  assumes "list_all (\<lambda>j. state_is (h j) ''PROCESSING''
                 \<and> \<not> time_at env (clock_reads w0 + j) - start > timeout
                 \<and> get_result env (length (get_calls w0) + j) = Inr (h (Suc j)))
              [0..<k]"
  shows "wait_loop env start timeout w0 (h 0)
           = wait_loop env start timeout (after_polls w0 h k) (h k)"
  using assms
proof (induction k)
  case 0
  show ?case by (simp add: after_polls_0)
next
  case (Suc k)
  then have prev: "wait_loop env start timeout w0 (h 0)
           = wait_loop env start timeout (after_polls w0 h k) (h k)"
    by simp
  from Suc.prems have st: "state_is (h k) ''PROCESSING''"
    and tm: "\<not> time_at env (clock_reads w0 + k) - start > timeout"
    and gt: "get_result env (length (get_calls w0) + k) = Inr (h (Suc k))"
    by simp_all
  have "wait_loop env start timeout (after_polls w0 h k) (h k)
          = wait_loop env start timeout (after_polls w0 h (Suc k)) (h (Suc k))"
    unfolding after_polls_Suc
    using st tm gt by (intro wait_loop_round) (simp_all add: after_polls_counts)
  with prev show ?case by simp
qed

lemma processing_run_loop:
  assumes "processing_run env w timeout h k"
  shows "wait_loop env (time_at env (clock_reads w)) timeout
           (w\<lparr>clock_reads := Suc (clock_reads w)\<rparr>) (h 0)
         = wait_loop env (time_at env (clock_reads w)) timeout
           (after_polls (w\<lparr>clock_reads := Suc (clock_reads w)\<rparr>) h k) (h k)"
  using assms unfolding processing_run_def
  by (intro wait_loop_rounds) simp

lemma wait_frame_loop:
  "wait_loop env start timeout w current = Some y \<Longrightarrow> same_session w (fst y)"
proof (induction env start timeout w current y
    rule: wait_loop.raw_induct [rotated 1, consumes 1, case_names step])
  case (step loop env start timeout w current y)
  note IH = step(1) and eq = step(2)
  show ?case
  proof (cases "state_is current ''PROCESSING''")
    case False
    with eq show ?thesis by (auto simp: same_session_def)
  next
    case True
    show ?thesis
    proof (cases "time_at env (clock_reads w) - start > timeout")
      case t: True
      with True eq show ?thesis by (auto simp: read_clock_def same_session_def)
    next
      case f: False
      let ?w2 = "w\<lparr>clock_reads := Suc (clock_reads w), sleeps := sleeps w @ [2],
                    get_calls := get_calls w @ [file_name current]\<rparr>"
      show ?thesis
      proof (cases "get_result env (length (get_calls w))")
        case (Inl e)
        with True f eq show ?thesis
          by (auto simp: read_clock_def get_file_def same_session_def)
      next
        case (Inr next_obj)
        with True f eq have "loop env start timeout ?w2 next_obj = Some y"
          by (simp add: read_clock_def get_file_def)
        then have "same_session ?w2 (fst y)" by (rule IH)
        then show ?thesis by (simp add: same_session_def)
      qed
    qed
  qed
qed

lemma wait_frame:
  assumes "wait_for_file_active env w file_obj timeout = Some (w', r)"
  shows "same_session w w'"
proof -
  let ?w0 = "w\<lparr>clock_reads := Suc (clock_reads w)\<rparr>"
  from assms obtain r0 where "wait_loop env (time_at env (clock_reads w)) timeout ?w0 file_obj
      = Some (w', r0)"
    by (auto simp: wait_for_file_active_def read_clock_def split: option.splits sum.splits)
  then have "same_session ?w0 (fst (w', r0))" by (rule wait_frame_loop)
  then show ?thesis by (simp add: same_session_def)
qed

lemma wait_settled:
  assumes "\<not> state_is file_obj ''PROCESSING''"
  shows "wait_for_file_active env w file_obj timeout
           = Some (w\<lparr>clock_reads := Suc (clock_reads w)\<rparr>, check_active file_obj)"
  by (simp add: wait_for_file_active_def read_clock_def wait_loop_done [OF assms])

lemma wait_active:
  assumes "state_is file_obj ''ACTIVE''"
  shows "wait_for_file_active env w file_obj timeout
           = Some (w\<lparr>clock_reads := Suc (clock_reads w)\<rparr>, Inr file_obj)"
proof -
  have np: "\<not> state_is file_obj ''PROCESSING''"
    using assms by (auto simp: state_is_def split: option.splits)
  have "check_active file_obj = Inr file_obj"
    using assms by (auto simp: state_is_def check_active_def split: option.splits)
  then show ?thesis by (simp add: wait_settled [OF np])
qed

text \<open>
  Claim C9. A handle that has no state, or whose state is false as a truth value, is
  returned at once as a success: the call reads the clock once, makes no poll and no
  sleep, and raises neither the timeout nor the rejection.
\<close>

theorem wait_without_state_returns:
  assumes "case state file_obj of None \<Rightarrow> True | Some s \<Rightarrow> \<not> state_truthy s"
  shows "wait_for_file_active env w file_obj timeout
           = Some (w\<lparr>clock_reads := Suc (clock_reads w)\<rparr>, Inr file_obj)"
proof -
  have np: "\<not> state_is file_obj ''PROCESSING''"
    using assms by (auto simp: state_is_def split: option.splits)
  have ok: "check_active file_obj = Inr file_obj"
    using assms by (auto simp: check_active_def split: option.splits)
  show ?thesis
    by (simp add: wait_for_file_active_def read_clock_def wait_loop_done [OF np] ok)
qed

theorem wait_without_state_returns_witness:
  "wait_for_file_active example_provider example_world (example_file ''files/a'' None) 120
     = Some (example_world\<lparr>clock_reads := 1\<rparr>, Inr (example_file ''files/a'' None))
   \<and> wait_for_file_active example_provider example_world
       (example_file ''files/a'' (Some \<lparr>state_truthy = False, state_name = ''PROCESSING''\<rparr>)) 120
     = Some (example_world\<lparr>clock_reads := 1\<rparr>,
             Inr (example_file ''files/a''
                    (Some \<lparr>state_truthy = False, state_name = ''PROCESSING''\<rparr>)))"
  using wait_without_state_returns [of "example_file ''files/a'' None" example_provider
      example_world 120]
    wait_without_state_returns [of "example_file ''files/a''
      (Some \<lparr>state_truthy = False, state_name = ''PROCESSING''\<rparr>)" example_provider
      example_world 120]
  by (simp add: example_file_def example_world_def)

text \<open>
  Claim C2, amended. Let a call of \<open>wait_for_file_active\<close> go through \<open>k\<close> rounds in
  which the handle reports "PROCESSING" and the elapsed time stays within the timeout, and
  let \<open>h k\<close> be the handle held after them (\<open>k\<close> may be 0, then it is the handle
  passed in). (1) If that handle still reports "PROCESSING" and the elapsed time read next
  exceeds the timeout, the call fails with \<open>TimeoutError\<close>: the time has run out
  before a terminal state was reached. The statement holds for every timeout; 120 is the
  default of the parameter, and the value \<open>upload_pdf_with_cache\<close> calls it with.
  (2) If the state of that handle is true as a truth value and its name is neither
  "PROCESSING" nor "ACTIVE", the call fails with the \<open>RuntimeError\<close> that names the
  state. If the handle has no state, or a state that is false as a truth value, the call
  returns it as a success, whatever the name of the state. (3) If the handle reports
  "ACTIVE", the call returns it; in particular a handle that is "ACTIVE" when passed in is
  returned after one clock reading, without a poll, a sleep or a timeout.
\<close>

theorem wait_for_file_active_outcomes:
  assumes "h 0 = file_obj" "processing_run env w timeout h k"
  shows "(state_is (h k) ''PROCESSING''
            \<and> time_at env (Suc (clock_reads w + k)) - time_at env (clock_reads w) > timeout
          \<longrightarrow> wait_for_file_active env w file_obj timeout
                = Some ((after_polls (w\<lparr>clock_reads := Suc (clock_reads w)\<rparr>) h k)
                          \<lparr>clock_reads := Suc (Suc (clock_reads w + k))\<rparr>,
                        Inl (TimeoutError,
                          ''Timed out while waiting for '' @ label (h k) @ '' to process.'')))
       \<and> ((case state (h k) of
              None \<Rightarrow> False
            | Some s \<Rightarrow> state_truthy s \<and> state_name s \<noteq> ''PROCESSING''
                          \<and> state_name s \<noteq> ''ACTIVE'')
          \<longrightarrow> wait_for_file_active env w file_obj timeout
                = Some (after_polls (w\<lparr>clock_reads := Suc (clock_reads w)\<rparr>) h k,
                        Inl (RuntimeError,
                          ''Gemini reported '' @ [CHR 0x27] @ state_name (the (state (h k)))
                          @ [CHR 0x27] @ '' for '' @ label (h k) @ ''.'')))
       \<and> ((case state (h k) of None \<Rightarrow> True | Some s \<Rightarrow> \<not> state_truthy s)
          \<longrightarrow> wait_for_file_active env w file_obj timeout
                = Some (after_polls (w\<lparr>clock_reads := Suc (clock_reads w)\<rparr>) h k, Inr (h k)))
       \<and> (state_is (h k) ''ACTIVE''
          \<longrightarrow> wait_for_file_active env w file_obj timeout
                = Some (after_polls (w\<lparr>clock_reads := Suc (clock_reads w)\<rparr>) h k, Inr (h k)))
       \<and> (state_is file_obj ''ACTIVE''
          \<longrightarrow> wait_for_file_active env w file_obj timeout
                = Some (w\<lparr>clock_reads := Suc (clock_reads w)\<rparr>, Inr file_obj))"
proof -
  let ?start = "time_at env (clock_reads w)"
  let ?w0 = "w\<lparr>clock_reads := Suc (clock_reads w)\<rparr>"
  let ?wk = "after_polls ?w0 h k"
  have run: "wait_loop env ?start timeout ?w0 file_obj = wait_loop env ?start timeout ?wk (h k)"
    using processing_run_loop [OF assms(2)] assms(1) by simp
  have wk: "clock_reads ?wk = Suc (clock_reads w + k)"
    by (simp add: after_polls_counts)
  have unfold: "wait_for_file_active env w file_obj timeout
      = (case wait_loop env ?start timeout ?wk (h k) of
           None \<Rightarrow> None
         | Some (w1, Inl e) \<Rightarrow> Some (w1, Inl e)
         | Some (w1, Inr current) \<Rightarrow> Some (w1, check_active current))"
    by (simp add: wait_for_file_active_def read_clock_def run)
  have settled: "wait_for_file_active env w file_obj timeout = Some (?wk, check_active (h k))"
    if "\<not> state_is (h k) ''PROCESSING''"
    by (simp add: unfold wait_loop_done [OF that])
  have p1: "wait_for_file_active env w file_obj timeout
                = Some (?wk\<lparr>clock_reads := Suc (Suc (clock_reads w + k))\<rparr>,
                        Inl (TimeoutError,
                          ''Timed out while waiting for '' @ label (h k) @ '' to process.''))"
    if "state_is (h k) ''PROCESSING''"
      "time_at env (Suc (clock_reads w + k)) - ?start > timeout"
    using that wait_loop_timeout [where current = "h k" and env = env and w = ?wk
        and start = ?start and timeout = timeout]
    by (simp add: unfold wk)
  have p2: "wait_for_file_active env w file_obj timeout
                = Some (?wk, Inl (RuntimeError,
                    ''Gemini reported '' @ [CHR 0x27] @ state_name (the (state (h k)))
                    @ [CHR 0x27] @ '' for '' @ label (h k) @ ''.''))"
    if c: "case state (h k) of None \<Rightarrow> False
            | Some s \<Rightarrow> state_truthy s \<and> state_name s \<noteq> ''PROCESSING''
                          \<and> state_name s \<noteq> ''ACTIVE''"
  proof -
    from c obtain s where s: "state (h k) = Some s" "state_truthy s"
      "state_name s \<noteq> ''PROCESSING''" "state_name s \<noteq> ''ACTIVE''"
      by (auto split: option.splits)
    have np: "\<not> state_is (h k) ''PROCESSING''" using s by (simp add: state_is_def)
    show ?thesis
      using s by (simp add: settled [OF np] check_active_def)
  qed
  have p3: "wait_for_file_active env w file_obj timeout = Some (?wk, Inr (h k))"
    if a: "state_is (h k) ''ACTIVE''"
  proof -
    have np: "\<not> state_is (h k) ''PROCESSING''"
      using a by (auto simp: state_is_def split: option.splits)
    have "check_active (h k) = Inr (h k)"
      using a by (auto simp: state_is_def check_active_def split: option.splits)
    then show ?thesis by (simp add: settled [OF np])
  qed
  have p4: "wait_for_file_active env w file_obj timeout = Some (?w0, Inr file_obj)"
    if a: "state_is file_obj ''ACTIVE''"
  proof -
    have np: "\<not> state_is file_obj ''PROCESSING''"
      using a by (auto simp: state_is_def split: option.splits)
    have "check_active file_obj = Inr file_obj"
      using a by (auto simp: state_is_def check_active_def split: option.splits)
    then show ?thesis
      by (simp add: wait_for_file_active_def read_clock_def wait_loop_done [OF np])
  qed
  have p5: "wait_for_file_active env w file_obj timeout = Some (?wk, Inr (h k))"
    if f: "case state (h k) of None \<Rightarrow> True | Some s \<Rightarrow> \<not> state_truthy s"
  proof -
    have np: "\<not> state_is (h k) ''PROCESSING''"
      using f by (auto simp: state_is_def split: option.splits)
    have "check_active (h k) = Inr (h k)"
      using f by (auto simp: check_active_def split: option.splits)
    then show ?thesis by (simp add: settled [OF np])
  qed
  from p1 p2 p3 p4 p5 show ?thesis by blast
qed

theorem wait_for_file_active_outcomes_witness:
  "processing_run example_provider example_world 120
     (\<lambda>j. if j = 0 then example_file ''files/p'' (example_state ''PROCESSING'')
          else example_file ''files/g'' (example_state ''PROCESSING'')) 1
   \<and> wait_for_file_active example_provider example_world
        (example_file ''files/p'' (example_state ''PROCESSING'')) 120
     = Some (example_world\<lparr>clock_reads := 3, sleeps := [2], get_calls := [''files/p'']\<rparr>,
             Inl (TimeoutError, ''Timed out while waiting for files/g to process.''))
   \<and> wait_for_file_active example_provider example_world
        (example_file ''files/x'' (example_state ''FAILED'')) 120
     = Some (example_world\<lparr>clock_reads := 1\<rparr>,
             Inl (RuntimeError, ''Gemini reported '' @ [CHR 0x27] @ ''FAILED'' @ [CHR 0x27]
               @ '' for files/x.''))
   \<and> processing_run example_settling example_world 120
     (\<lambda>j. if j = 0 then example_file ''files/p'' (example_state ''PROCESSING'')
          else example_file ''files/u'' (example_falsy ''STATE_UNSPECIFIED'')) 1
   \<and> wait_for_file_active example_settling example_world
        (example_file ''files/p'' (example_state ''PROCESSING'')) 120
     = Some (example_world\<lparr>clock_reads := 2, sleeps := [2], get_calls := [''files/p'']\<rparr>,
             Inr (example_file ''files/u'' (example_falsy ''STATE_UNSPECIFIED'')))
   \<and> wait_for_file_active example_provider example_world
        (example_file ''files/a'' (example_state ''ACTIVE'')) 120
     = Some (example_world\<lparr>clock_reads := 1\<rparr>,
             Inr (example_file ''files/a'' (example_state ''ACTIVE'')))"
proof -
  let ?h = "\<lambda>j::nat. if j = 0 then example_file ''files/p'' (example_state ''PROCESSING'')
          else example_file ''files/g'' (example_state ''PROCESSING'')"
  let ?u = "\<lambda>j::nat. if j = 0 then example_file ''files/p'' (example_state ''PROCESSING'')
          else example_file ''files/u'' (example_falsy ''STATE_UNSPECIFIED'')"
  have run1: "processing_run example_provider example_world 120 ?h 1"
    by (simp add: processing_run_def example_provider_def example_world_def state_is_def
        example_file_def example_state_def)
  have run2: "processing_run example_settling example_world 120 ?u 1"
    by (simp add: processing_run_def example_settling_def example_provider_def
        example_world_def state_is_def example_file_def example_state_def)
  have run0: "processing_run example_provider example_world 120 (\<lambda>j. f) 0" for f
    by (simp add: processing_run_def)
  have timeout: "wait_for_file_active example_provider example_world
        (example_file ''files/p'' (example_state ''PROCESSING'')) 120
     = Some (example_world\<lparr>clock_reads := 3, sleeps := [2], get_calls := [''files/p'']\<rparr>,
             Inl (TimeoutError, ''Timed out while waiting for files/g to process.''))"
    using wait_for_file_active_outcomes [OF _ run1,
        of "example_file ''files/p'' (example_state ''PROCESSING'')"]
    by (simp add: example_provider_def example_world_def state_is_def example_file_def
        example_state_def label_def after_polls_def)
  have rejected: "wait_for_file_active example_provider example_world
        (example_file ''files/x'' (example_state ''FAILED'')) 120
     = Some (example_world\<lparr>clock_reads := 1\<rparr>,
             Inl (RuntimeError, ''Gemini reported '' @ [CHR 0x27] @ ''FAILED'' @ [CHR 0x27]
               @ '' for files/x.''))"
    using wait_for_file_active_outcomes [OF _ run0,
        of "example_file ''files/x'' (example_state ''FAILED'')"
           "example_file ''files/x'' (example_state ''FAILED'')"]
    by (simp add: example_world_def example_file_def example_state_def label_def
        after_polls_def)
  have falsy: "wait_for_file_active example_settling example_world
        (example_file ''files/p'' (example_state ''PROCESSING'')) 120
     = Some (example_world\<lparr>clock_reads := 2, sleeps := [2], get_calls := [''files/p'']\<rparr>,
             Inr (example_file ''files/u'' (example_falsy ''STATE_UNSPECIFIED'')))"
    using wait_for_file_active_outcomes [OF _ run2,
        of "example_file ''files/p'' (example_state ''PROCESSING'')"]
    by (simp add: example_world_def example_file_def example_falsy_def after_polls_def)
  have active: "wait_for_file_active example_provider example_world
        (example_file ''files/a'' (example_state ''ACTIVE'')) 120
     = Some (example_world\<lparr>clock_reads := 1\<rparr>,
             Inr (example_file ''files/a'' (example_state ''ACTIVE'')))"
    using wait_for_file_active_outcomes [OF _ run0,
        of "example_file ''files/a'' (example_state ''ACTIVE'')"
           "example_file ''files/a'' (example_state ''ACTIVE'')"]
    by (simp add: example_world_def state_is_def example_file_def example_state_def
        after_polls_def)
  from run1 timeout rejected run2 falsy active show ?thesis by simp
qed

text \<open>
  The claim as first stated, rejection for any terminal state other than "ACTIVE", fails
  for a state that is false as a truth value: the handle is returned as a success.
\<close>

theorem wait_rejection_counterexample:
  "state_name \<lparr>state_truthy = False, state_name = ''STATE_UNSPECIFIED''\<rparr> \<noteq> ''ACTIVE''
   \<and> wait_for_file_active example_provider example_world
       (example_file ''files/x''
          (Some \<lparr>state_truthy = False, state_name = ''STATE_UNSPECIFIED''\<rparr>)) 120
     = Some (example_world\<lparr>clock_reads := 1\<rparr>,
             Inr (example_file ''files/x''
                    (Some \<lparr>state_truthy = False, state_name = ''STATE_UNSPECIFIED''\<rparr>)))"
  by (simp add: wait_settled state_is_def check_active_def example_file_def example_world_def)

section \<open>Properties of the upload cache\<close>

lemma cache_lookup_other:
  "cache_lookup c t = Some h \<Longrightarrow> t' \<noteq> t \<Longrightarrow> cache_lookup c t' = None"
  by (auto simp: cache_lookup_def split: option.splits if_splits)

text \<open>The call, once the modification time has been read.\<close>

lemma upload_hit:
  assumes "stat_mtime w p = Inr t" "cache_lookup (upload_cache w (resolve env p)) t = Some f"
  shows "upload_pdf_with_cache env w p = Some (w, Inr f)"
  using assms by (simp add: upload_pdf_with_cache_def Let_def)

lemma upload_fresh:
  assumes "stat_mtime w p = Inr t" "cache_lookup (upload_cache w (resolve env p)) t = None"
  shows "upload_pdf_with_cache env w p =
     (case upload_result env (length (upload_calls w)) of
        Inl e \<Rightarrow> Some (w\<lparr>upload_calls := upload_calls w @ [p]\<rparr>, Inl e)
      | Inr upload \<Rightarrow>
          (case wait_for_file_active env (w\<lparr>upload_calls := upload_calls w @ [p]\<rparr>) upload 120 of
             None \<Rightarrow> None
           | Some (w2, Inl e) \<Rightarrow> Some (w2, Inl e)
           | Some (w2, Inr active) \<Rightarrow>
               Some (w2\<lparr>upload_cache := (upload_cache w)(resolve env p \<mapsto>
                          \<lparr>entry_file = active, entry_mtime = t\<rparr>)\<rparr>, Inr active)))"
  using assms by (simp add: upload_pdf_with_cache_def Let_def upload_file_def)

text \<open>What a call that returns a handle leaves behind.\<close>

lemma upload_success:
  assumes run: "upload_pdf_with_cache env w p = Some (w1, Inr h)" and st: "stat_mtime w p = Inr t"
  shows "cache_lookup (upload_cache w1 (resolve env p)) t = Some h"
    and "stat_mtime w1 = stat_mtime w"
    and "cache_lookup (upload_cache w (resolve env p)) t = None \<Longrightarrow>
           upload_calls w1 = upload_calls w @ [p]"
proof -
  have both: "cache_lookup (upload_cache w1 (resolve env p)) t = Some h
      \<and> stat_mtime w1 = stat_mtime w
      \<and> (cache_lookup (upload_cache w (resolve env p)) t = None
           \<longrightarrow> upload_calls w1 = upload_calls w @ [p])"
  proof (cases "cache_lookup (upload_cache w (resolve env p)) t")
    case (Some f)
    from run upload_hit [OF st Some] have "w1 = w" "h = f" by simp_all
    with Some show ?thesis by simp
  next
    case None
    let ?wu = "w\<lparr>upload_calls := upload_calls w @ [p]\<rparr>"
    from run upload_fresh [OF st None] obtain up w2
      where up: "upload_result env (length (upload_calls w)) = Inr up"
        and wt: "wait_for_file_active env ?wu up 120 = Some (w2, Inr h)"
        and w1: "w1 = w2\<lparr>upload_cache := (upload_cache w)(resolve env p \<mapsto>
                          \<lparr>entry_file = h, entry_mtime = t\<rparr>)\<rparr>"
      by (auto split: sum.splits option.splits)
    have fr: "same_session ?wu w2" using wt by (rule wait_frame)
    show ?thesis using fr by (simp add: w1 cache_lookup_def same_session_def)
  qed
  from both show "cache_lookup (upload_cache w1 (resolve env p)) t = Some h" by simp
  from both show "stat_mtime w1 = stat_mtime w" by simp
  from both show "upload_calls w1 = upload_calls w @ [p]"
    if "cache_lookup (upload_cache w (resolve env p)) t = None" using that by simp
qed

text \<open>What a call that misses the cache does, whatever comes of it.\<close>

lemma upload_miss:
  assumes run: "upload_pdf_with_cache env w p = Some (w2, r)" and st: "stat_mtime w p = Inr t"
    and miss: "cache_lookup (upload_cache w (resolve env p)) t = None"
  shows "upload_calls w2 = upload_calls w @ [p]"
    and "case r of
           Inl e \<Rightarrow> upload_cache w2 = upload_cache w
         | Inr h2 \<Rightarrow> upload_cache w2 = (upload_cache w)(resolve env p \<mapsto>
                       \<lparr>entry_file = h2, entry_mtime = t\<rparr>)"
proof -
  let ?wu = "w\<lparr>upload_calls := upload_calls w @ [p]\<rparr>"
  have both: "upload_calls w2 = upload_calls w @ [p]
      \<and> (case r of
           Inl e \<Rightarrow> upload_cache w2 = upload_cache w
         | Inr h2 \<Rightarrow> upload_cache w2 = (upload_cache w)(resolve env p \<mapsto>
                       \<lparr>entry_file = h2, entry_mtime = t\<rparr>))"
  proof (cases "upload_result env (length (upload_calls w))")
    case (Inl e)
    have "upload_pdf_with_cache env w p = Some (?wu, Inl e)"
      using upload_fresh [OF st miss] Inl by simp
    with run have "w2 = ?wu" "r = Inl e" by simp_all
    then show ?thesis by simp
  next
    case (Inr up)
    with run upload_fresh [OF st miss] obtain w3 r3
      where wt: "wait_for_file_active env ?wu up 120 = Some (w3, r3)"
      by (auto split: option.splits)
    have fr: "same_session ?wu w3" using wt by (rule wait_frame)
    from run upload_fresh [OF st miss] Inr wt fr show ?thesis
      by (cases r3) (auto simp: same_session_def)
  qed
  from both show "upload_calls w2 = upload_calls w @ [p]" by simp
  from both show "case r of
           Inl e \<Rightarrow> upload_cache w2 = upload_cache w
         | Inr h2 \<Rightarrow> upload_cache w2 = (upload_cache w)(resolve env p \<mapsto>
                       \<lparr>entry_file = h2, entry_mtime = t\<rparr>)" by simp
qed

lemma upload_miss_active:
  assumes "stat_mtime w p = Inr t" "cache_lookup (upload_cache w (resolve env p)) t = None"
    "upload_result env (length (upload_calls w)) = Inr up" "state_is up ''ACTIVE''"
  shows "upload_pdf_with_cache env w p
     = Some (w\<lparr>upload_calls := upload_calls w @ [p], clock_reads := Suc (clock_reads w),
               upload_cache := (upload_cache w)(resolve env p \<mapsto>
                 \<lparr>entry_file = up, entry_mtime = t\<rparr>)\<rparr>,
             Inr up)"
  using assms
  by (simp add: upload_pdf_with_cache_def Let_def upload_file_def wait_active)

text \<open>
  Claim C10. A call of \<open>upload_pdf_with_cache\<close> that ends in an error leaves the
  upload cache as it was, whichever step raised (\<open>stat\<close>, the upload, a poll, the
  timeout or the rejection): the entry is written only after the readiness wait has
  returned a handle. In particular an upload that the provider refuses leaves every entry
  in place.
\<close>

theorem upload_failure_keeps_cache:
  "(upload_pdf_with_cache env w p = Some (w', Inl e) \<longrightarrow> upload_cache w' = upload_cache w)
   \<and> (stat_mtime w p = Inr t \<and> cache_lookup (upload_cache w (resolve env p)) t = None
        \<and> upload_result env (length (upload_calls w)) = Inl e
      \<longrightarrow> upload_pdf_with_cache env w p
            = Some (w\<lparr>upload_calls := upload_calls w @ [p]\<rparr>, Inl e))"
proof (intro conjI impI)
  assume "upload_pdf_with_cache env w p = Some (w', Inl e)"
  then show "upload_cache w' = upload_cache w"
    by (auto simp: upload_pdf_with_cache_def Let_def upload_file_def same_session_def
        split: option.splits sum.splits dest!: wait_frame)
next
  assume "stat_mtime w p = Inr t \<and> cache_lookup (upload_cache w (resolve env p)) t = None
        \<and> upload_result env (length (upload_calls w)) = Inl e"
  then show "upload_pdf_with_cache env w p
            = Some (w\<lparr>upload_calls := upload_calls w @ [p]\<rparr>, Inl e)"
    by (simp add: upload_pdf_with_cache_def Let_def upload_file_def)
qed

theorem upload_failure_keeps_cache_witness:
  "upload_pdf_with_cache example_provider example_stale ''pdfs/acme.pdf''
     = Some (example_stale\<lparr>upload_calls :=
               [''pdfs/acme.pdf'', ''pdfs/acme.pdf'', ''pdfs/acme.pdf'']\<rparr>,
             Inl (OtherError, ''connection reset''))
   \<and> upload_cache (example_stale\<lparr>upload_calls :=
               [''pdfs/acme.pdf'', ''pdfs/acme.pdf'', ''pdfs/acme.pdf'']\<rparr>)
       ''/srv/pdfs/acme.pdf''
     = Some \<lparr>entry_file = example_file ''files/f0'' (example_state ''ACTIVE''),
             entry_mtime = 900\<rparr>"
proof -
  have st: "stat_mtime example_stale ''pdfs/acme.pdf'' = Inr 1000"
    by (simp add: example_stale_def example_world_def)
  have miss: "cache_lookup
      (upload_cache example_stale (resolve example_provider ''pdfs/acme.pdf'')) 1000 = None"
    by (simp add: example_stale_def example_world_def example_provider_def cache_lookup_def)
  have fail: "upload_result example_provider (length (upload_calls example_stale))
      = Inl (OtherError, ''connection reset'')"
    by (simp add: example_stale_def example_world_def example_provider_def)
  have run: "upload_pdf_with_cache example_provider example_stale ''pdfs/acme.pdf''
     = Some (example_stale\<lparr>upload_calls := upload_calls example_stale @ [''pdfs/acme.pdf'']\<rparr>,
             Inl (OtherError, ''connection reset''))"
    using upload_failure_keeps_cache [of example_provider example_stale "''pdfs/acme.pdf''"
        "example_stale" "(OtherError, ''connection reset'')" 1000] st miss fail
    by simp
  have keep: "upload_cache (example_stale\<lparr>upload_calls :=
                 upload_calls example_stale @ [''pdfs/acme.pdf'']\<rparr>)
               = upload_cache example_stale"
    using upload_failure_keeps_cache [of example_provider example_stale "''pdfs/acme.pdf''"
        "example_stale\<lparr>upload_calls := upload_calls example_stale @ [''pdfs/acme.pdf'']\<rparr>"
        "(OtherError, ''connection reset'')" 1000] run
    by simp
  show ?thesis
    using run keep by (simp add: example_stale_def example_world_def)
qed

text \<open>
  Claim C3, amended. Let a first call \<open>upload_pdf_with_cache(p)\<close> return, the
  modification time of \<open>p\<close> being \<open>t\<close>. If the cache already held \<open>p\<close> at that time,
  the call made no upload and returned the cached handle; if it did not, the call made
  exactly one upload.

  When the first call returned a handle \<open>h\<close>, a second call while the modification time
  is still \<open>t\<close> returns \<open>h\<close> and changes nothing: no upload, no poll, no clock
  reading. So the two calls together made one upload if the path was not cached before,
  and none if it was. When the first call failed, in the upload or in the readiness wait,
  it left the cache as it was, and a second call at the same modification time uploads
  again: the two calls made two uploads.

  When the first call returned a handle and the modification time has changed to \<open>t'\<close>,
  the second call makes one more upload whenever it returns. It replaces the cache entry
  of \<open>p\<close> by the new handle with \<open>t'\<close> when it returns a handle, which it does when
  the provider answers the upload with a handle that is "ACTIVE"; it leaves the cache as
  it was when it fails, as it does when the provider refuses the upload.
\<close>

theorem upload_cache_reuse:
  assumes "upload_pdf_with_cache env w p = Some (w1, r1)" "stat_mtime w p = Inr t"
  shows "(cache_lookup (upload_cache w (resolve env p)) t = Some f \<longrightarrow> w1 = w \<and> r1 = Inr f)
       \<and> (cache_lookup (upload_cache w (resolve env p)) t = None
            \<longrightarrow> upload_calls w1 = upload_calls w @ [p])
       \<and> (r1 = Inr h \<and> stat' p = Inr t
            \<longrightarrow> upload_pdf_with_cache env (w1\<lparr>stat_mtime := stat'\<rparr>) p
                  = Some (w1\<lparr>stat_mtime := stat'\<rparr>, Inr h))
       \<and> (r1 = Inl e
            \<longrightarrow> upload_cache w1 = upload_cache w \<and> upload_calls w1 = upload_calls w @ [p])
       \<and> (r1 = Inl e \<and> stat' p = Inr t
              \<and> upload_pdf_with_cache env (w1\<lparr>stat_mtime := stat'\<rparr>) p = Some (w2, r)
            \<longrightarrow> upload_calls w2 = upload_calls w @ [p, p])
       \<and> (r1 = Inr h \<and> stat' p = Inr t' \<and> t' \<noteq> t
              \<and> upload_pdf_with_cache env (w1\<lparr>stat_mtime := stat'\<rparr>) p = Some (w2, r)
            \<longrightarrow> upload_calls w2 = upload_calls w1 @ [p]
                \<and> (case r of
                      Inl e2 \<Rightarrow> upload_cache w2 = upload_cache w1
                    | Inr h2 \<Rightarrow> upload_cache w2 = (upload_cache w1)(resolve env p \<mapsto>
                                  \<lparr>entry_file = h2, entry_mtime = t'\<rparr>)))
       \<and> (r1 = Inr h \<and> stat' p = Inr t' \<and> t' \<noteq> t
              \<and> upload_result env (length (upload_calls w1)) = Inr up
              \<and> state_is up ''ACTIVE''
            \<longrightarrow> upload_pdf_with_cache env (w1\<lparr>stat_mtime := stat'\<rparr>) p
                  = Some (w1\<lparr>stat_mtime := stat',
                             upload_calls := upload_calls w1 @ [p],
                             clock_reads := Suc (clock_reads w1),
                             upload_cache := (upload_cache w1)(resolve env p \<mapsto>
                               \<lparr>entry_file = up, entry_mtime = t'\<rparr>)\<rparr>,
                          Inr up))
       \<and> (r1 = Inr h \<and> stat' p = Inr t' \<and> t' \<noteq> t
              \<and> upload_result env (length (upload_calls w1)) = Inl e
            \<longrightarrow> upload_pdf_with_cache env (w1\<lparr>stat_mtime := stat'\<rparr>) p
                  = Some (w1\<lparr>stat_mtime := stat', upload_calls := upload_calls w1 @ [p]\<rparr>,
                          Inl e))"
proof -
  let ?w1' = "w1\<lparr>stat_mtime := stat'\<rparr>"
  note run = assms(1) and st = assms(2)
  have c1: "w1 = w \<and> r1 = Inr g"
    if "cache_lookup (upload_cache w (resolve env p)) t = Some g" for g
    using run upload_hit [OF st that] by simp
  have c2: "upload_calls w1 = upload_calls w @ [p]"
    if "cache_lookup (upload_cache w (resolve env p)) t = None"
    using run st that by (rule upload_miss(1))
  have hit: "cache_lookup (upload_cache w1 (resolve env p)) t = Some h" if "r1 = Inr h"
    using run st unfolding that by (rule upload_success(1))
  have c3: "upload_pdf_with_cache env ?w1' p = Some (?w1', Inr h)"
    if "r1 = Inr h" "stat' p = Inr t"
    using that(2) hit [OF that(1)] by (simp add: upload_pdf_with_cache_def Let_def)
  have failed: "cache_lookup (upload_cache w (resolve env p)) t = None" if "r1 = Inl e"
  proof (cases "cache_lookup (upload_cache w (resolve env p)) t")
    case None
    then show ?thesis .
  next
    case (Some g)
    from c1 [OF Some] that show ?thesis by simp
  qed
  have kept: "upload_cache w1 = upload_cache w" if "r1 = Inl e"
    using upload_miss(2) [OF run st failed [OF that]] that by simp
  have c4: "upload_cache w1 = upload_cache w \<and> upload_calls w1 = upload_calls w @ [p]"
    if "r1 = Inl e"
    using kept [OF that] c2 [OF failed [OF that]] by simp
  have c5: "upload_calls w2 = upload_calls w @ [p, p]"
    if f: "r1 = Inl e" and s: "stat' p = Inr t"
      and run2: "upload_pdf_with_cache env ?w1' p = Some (w2, r)"
  proof -
    have st': "stat_mtime ?w1' p = Inr t" using s by simp
    have miss': "cache_lookup (upload_cache ?w1' (resolve env p)) t = None"
      using failed [OF f] kept [OF f] by simp
    have "upload_calls w2 = upload_calls ?w1' @ [p]"
      using run2 st' miss' by (rule upload_miss(1))
    then show ?thesis using c4 [OF f] by simp
  qed
  have miss: "cache_lookup (upload_cache ?w1' (resolve env p)) t' = None"
    if "r1 = Inr h" "t' \<noteq> t"
    using cache_lookup_other [OF hit [OF that(1)] that(2)] by simp
  have c6: "upload_calls w2 = upload_calls w1 @ [p]
          \<and> (case r of
                Inl e2 \<Rightarrow> upload_cache w2 = upload_cache w1
              | Inr h2 \<Rightarrow> upload_cache w2 = (upload_cache w1)(resolve env p \<mapsto>
                            \<lparr>entry_file = h2, entry_mtime = t'\<rparr>))"
    if ok: "r1 = Inr h" and s: "stat' p = Inr t'" and ne: "t' \<noteq> t"
      and run2: "upload_pdf_with_cache env ?w1' p = Some (w2, r)"
  proof -
    have st': "stat_mtime ?w1' p = Inr t'" using s by simp
    have calls: "upload_calls w2 = upload_calls w1 @ [p]"
      using upload_miss(1) [OF run2 st' miss [OF ok ne]] by simp
    have cache: "case r of
                Inl e2 \<Rightarrow> upload_cache w2 = upload_cache w1
              | Inr h2 \<Rightarrow> upload_cache w2 = (upload_cache w1)(resolve env p \<mapsto>
                            \<lparr>entry_file = h2, entry_mtime = t'\<rparr>)"
      using upload_miss(2) [OF run2 st' miss [OF ok ne]] by (cases r) simp_all
    from calls cache show ?thesis by simp
  qed
  have c7: "upload_pdf_with_cache env ?w1' p
                  = Some (w1\<lparr>stat_mtime := stat',
                             upload_calls := upload_calls w1 @ [p],
                             clock_reads := Suc (clock_reads w1),
                             upload_cache := (upload_cache w1)(resolve env p \<mapsto>
                               \<lparr>entry_file = up, entry_mtime = t'\<rparr>)\<rparr>,
                          Inr up)"
    if ok: "r1 = Inr h" and s: "stat' p = Inr t'" and ne: "t' \<noteq> t"
      and up: "upload_result env (length (upload_calls w1)) = Inr up"
      and act: "state_is up ''ACTIVE''"
  proof -
    have st': "stat_mtime ?w1' p = Inr t'" using s by simp
    have u: "upload_result env (length (upload_calls ?w1')) = Inr up" using up by simp
    show ?thesis using upload_miss_active [OF st' miss [OF ok ne] u act] by simp
  qed
  have c8: "upload_pdf_with_cache env ?w1' p
                  = Some (w1\<lparr>stat_mtime := stat', upload_calls := upload_calls w1 @ [p]\<rparr>,
                          Inl e)"
    if ok: "r1 = Inr h" and s: "stat' p = Inr t'" and ne: "t' \<noteq> t"
      and up: "upload_result env (length (upload_calls w1)) = Inl e"
  proof -
    have st': "stat_mtime ?w1' p = Inr t'" using s by simp
    show ?thesis using upload_fresh [OF st' miss [OF ok ne]] up by simp
  qed
  from c1 c2 c3 c4 c5 c6 c7 c8 show ?thesis by blast
qed

theorem upload_cache_reuse_witness:
  "upload_pdf_with_cache example_provider example_world ''pdfs/acme.pdf''
     = Some (example_uploaded, Inr (example_file ''files/f0'' (example_state ''ACTIVE'')))
   \<and> upload_calls example_uploaded = upload_calls example_world @ [''pdfs/acme.pdf'']
   \<and> upload_pdf_with_cache example_provider example_uploaded ''pdfs/acme.pdf''
     = Some (example_uploaded, Inr (example_file ''files/f0'' (example_state ''ACTIVE'')))
   \<and> upload_pdf_with_cache example_provider
        (example_uploaded\<lparr>stat_mtime := (\<lambda>q. Inr 2000)\<rparr>) ''pdfs/acme.pdf''
     = Some (example_uploaded\<lparr>stat_mtime := (\<lambda>q. Inr 2000),
               upload_calls := [''pdfs/acme.pdf'', ''pdfs/acme.pdf''],
               clock_reads := 2,
               upload_cache := [''/srv/pdfs/acme.pdf'' \<mapsto>
                 \<lparr>entry_file = example_file ''files/f1'' (example_state ''ACTIVE''),
                  entry_mtime = 2000\<rparr>]\<rparr>,
             Inr (example_file ''files/f1'' (example_state ''ACTIVE'')))
   \<and> upload_pdf_with_cache (example_refusing 1)
        (example_uploaded\<lparr>stat_mtime := (\<lambda>q. Inr 2000)\<rparr>) ''pdfs/acme.pdf''
     = Some (example_uploaded\<lparr>stat_mtime := (\<lambda>q. Inr 2000),
               upload_calls := [''pdfs/acme.pdf'', ''pdfs/acme.pdf'']\<rparr>,
             Inl (OtherError, ''connection reset''))
   \<and> upload_pdf_with_cache (example_refusing 0) example_world ''pdfs/acme.pdf''
     = Some (example_world\<lparr>upload_calls := [''pdfs/acme.pdf'']\<rparr>,
             Inl (OtherError, ''connection reset''))
   \<and> upload_cache (example_world\<lparr>upload_calls := [''pdfs/acme.pdf'']\<rparr>)
     = upload_cache example_world"
proof -
  let ?p = "''pdfs/acme.pdf''"
  let ?f0 = "example_file ''files/f0'' (example_state ''ACTIVE'')"
  let ?f1 = "example_file ''files/f1'' (example_state ''ACTIVE'')"
  let ?e = "(OtherError, ''connection reset'')"
  have st: "stat_mtime example_world ?p = Inr 1000"
    by (simp add: example_world_def)
  have miss: "cache_lookup (upload_cache example_world (resolve env ?p)) 1000 = None"
    for env :: provider
    by (simp add: example_world_def cache_lookup_def)
  have act: "state_is (example_file n (example_state ''ACTIVE'')) ''ACTIVE''" for n
    by (simp add: state_is_def example_file_def example_state_def)
  have up: "upload_result example_provider (length (upload_calls example_world)) = Inr ?f0"
    by (simp add: example_world_def example_provider_def)
  have up': "upload_result (example_refusing 1) (length (upload_calls example_world)) = Inr ?f0"
    by (simp add: example_world_def example_refusing_def)
  have first: "upload_pdf_with_cache example_provider example_world ?p
     = Some (example_uploaded, Inr ?f0)"
    using upload_miss_active [OF st miss up act]
    by (simp add: example_uploaded_def example_world_def example_provider_def)
  have first': "upload_pdf_with_cache (example_refusing 1) example_world ?p
     = Some (example_uploaded, Inr ?f0)"
    using upload_miss_active [OF st miss up' act]
    by (simp add: example_uploaded_def example_world_def example_refusing_def
        example_provider_def)
  have refused: "upload_pdf_with_cache (example_refusing 0) example_world ?p
     = Some (example_world\<lparr>upload_calls := [?p]\<rparr>, Inl ?e)"
    using upload_fresh [OF st miss, of "example_refusing 0"]
    by (simp add: example_world_def example_refusing_def)
  have same: "example_uploaded\<lparr>stat_mtime := stat_mtime example_world\<rparr> = example_uploaded"
    by (simp add: example_uploaded_def)
  have up2: "upload_result example_provider (length (upload_calls example_uploaded)) = Inr ?f1"
    by (simp add: example_uploaded_def example_world_def example_provider_def)
  have no2: "upload_result (example_refusing 1) (length (upload_calls example_uploaded))
      = Inl ?e"
    by (simp add: example_uploaded_def example_world_def example_refusing_def)
  have once: "upload_calls example_uploaded = upload_calls example_world @ [?p]"
    using miss upload_cache_reuse [OF first st, THEN conjunct2, THEN conjunct1] by simp
  have again: "upload_pdf_with_cache example_provider example_uploaded ?p
     = Some (example_uploaded, Inr ?f0)"
    using st same
      upload_cache_reuse [where h = ?f0 and stat' = "stat_mtime example_world",
        OF first st, THEN conjunct2, THEN conjunct2, THEN conjunct1]
    by simp
  have changed: "upload_pdf_with_cache example_provider
        (example_uploaded\<lparr>stat_mtime := (\<lambda>q. Inr 2000)\<rparr>) ?p
     = Some (example_uploaded\<lparr>stat_mtime := (\<lambda>q. Inr 2000),
               upload_calls := [?p, ?p], clock_reads := 2,
               upload_cache := [''/srv/pdfs/acme.pdf'' \<mapsto>
                 \<lparr>entry_file = ?f1, entry_mtime = 2000\<rparr>]\<rparr>,
             Inr ?f1)"
    using up2 act [of "''files/f1''"]
      upload_cache_reuse [where h = ?f0 and stat' = "\<lambda>q. Inr 2000" and t' = 2000
        and up = ?f1, OF first st, THEN conjunct2, THEN conjunct2, THEN conjunct2,
        THEN conjunct2, THEN conjunct2, THEN conjunct2, THEN conjunct1]
    by (simp add: example_uploaded_def example_world_def example_provider_def)
  have denied: "upload_pdf_with_cache (example_refusing 1)
        (example_uploaded\<lparr>stat_mtime := (\<lambda>q. Inr 2000)\<rparr>) ?p
     = Some (example_uploaded\<lparr>stat_mtime := (\<lambda>q. Inr 2000), upload_calls := [?p, ?p]\<rparr>,
             Inl ?e)"
    using no2
      upload_cache_reuse [where h = ?f0 and stat' = "\<lambda>q. Inr 2000" and t' = 2000
        and e = ?e, OF first' st, THEN conjunct2, THEN conjunct2, THEN conjunct2,
        THEN conjunct2, THEN conjunct2, THEN conjunct2, THEN conjunct2]
    by (simp add: example_uploaded_def example_world_def)
  have kept: "upload_cache (example_world\<lparr>upload_calls := [?p]\<rparr>) = upload_cache example_world"
    using upload_cache_reuse [where e = ?e, OF refused st, THEN conjunct2, THEN conjunct2,
        THEN conjunct2, THEN conjunct1]
    by simp
  from first once again changed denied refused kept show ?thesis by simp
qed

text \<open>
  The claim as first stated fails in both halves. A first upload that the provider
  refuses caches nothing, so the second call, at the same modification time, uploads
  again: two calls, two uploads. And after a change of the modification time a second
  upload that the provider refuses leaves the old entry of the cache in its place.
\<close>

theorem upload_twice_counterexample:
  "upload_pdf_with_cache (example_refusing 0) example_world ''pdfs/acme.pdf''
     = Some (example_world\<lparr>upload_calls := [''pdfs/acme.pdf'']\<rparr>,
             Inl (OtherError, ''connection reset''))
   \<and> stat_mtime (example_world\<lparr>upload_calls := [''pdfs/acme.pdf'']\<rparr>) ''pdfs/acme.pdf''
     = stat_mtime example_world ''pdfs/acme.pdf''
   \<and> upload_pdf_with_cache (example_refusing 0)
        (example_world\<lparr>upload_calls := [''pdfs/acme.pdf'']\<rparr>) ''pdfs/acme.pdf''
     = Some (example_world\<lparr>upload_calls := [''pdfs/acme.pdf'', ''pdfs/acme.pdf''],
               clock_reads := 1,
               upload_cache := [''/srv/pdfs/acme.pdf'' \<mapsto>
                 \<lparr>entry_file = example_file ''files/f1'' (example_state ''ACTIVE''),
                  entry_mtime = 1000\<rparr>]\<rparr>,
             Inr (example_file ''files/f1'' (example_state ''ACTIVE'')))
   \<and> upload_pdf_with_cache (example_refusing 1) example_world ''pdfs/acme.pdf''
     = Some (example_uploaded, Inr (example_file ''files/f0'' (example_state ''ACTIVE'')))
   \<and> upload_pdf_with_cache (example_refusing 1)
        (example_uploaded\<lparr>stat_mtime := (\<lambda>q. Inr 2000)\<rparr>) ''pdfs/acme.pdf''
     = Some (example_uploaded\<lparr>stat_mtime := (\<lambda>q. Inr 2000),
               upload_calls := [''pdfs/acme.pdf'', ''pdfs/acme.pdf'']\<rparr>,
             Inl (OtherError, ''connection reset''))
   \<and> upload_cache (example_uploaded\<lparr>stat_mtime := (\<lambda>q. Inr 2000),
                      upload_calls := [''pdfs/acme.pdf'', ''pdfs/acme.pdf'']\<rparr>)
        ''/srv/pdfs/acme.pdf''
     = Some \<lparr>entry_file = example_file ''files/f0'' (example_state ''ACTIVE''),
             entry_mtime = 1000\<rparr>"
proof -
  have act: "state_is (example_file n (example_state ''ACTIVE'')) ''ACTIVE''" for n
    by (simp add: state_is_def example_file_def example_state_def)
  have a: "upload_pdf_with_cache (example_refusing 0) example_world ''pdfs/acme.pdf''
     = Some (example_world\<lparr>upload_calls := [''pdfs/acme.pdf'']\<rparr>,
             Inl (OtherError, ''connection reset''))"
    by (simp add: upload_pdf_with_cache_def Let_def upload_file_def cache_lookup_def
        example_world_def example_refusing_def example_provider_def)
  have b: "upload_pdf_with_cache (example_refusing 0)
        (example_world\<lparr>upload_calls := [''pdfs/acme.pdf'']\<rparr>) ''pdfs/acme.pdf''
     = Some (example_world\<lparr>upload_calls := [''pdfs/acme.pdf'', ''pdfs/acme.pdf''],
               clock_reads := 1,
               upload_cache := [''/srv/pdfs/acme.pdf'' \<mapsto>
                 \<lparr>entry_file = example_file ''files/f1'' (example_state ''ACTIVE''),
                  entry_mtime = 1000\<rparr>]\<rparr>,
             Inr (example_file ''files/f1'' (example_state ''ACTIVE'')))"
    by (simp add: upload_pdf_with_cache_def Let_def upload_file_def cache_lookup_def
        wait_active [OF act] example_world_def example_refusing_def example_provider_def)
  have c: "upload_pdf_with_cache (example_refusing 1) example_world ''pdfs/acme.pdf''
     = Some (example_uploaded, Inr (example_file ''files/f0'' (example_state ''ACTIVE'')))"
    by (simp add: upload_pdf_with_cache_def Let_def upload_file_def cache_lookup_def
        wait_active [OF act] example_uploaded_def example_world_def example_refusing_def
        example_provider_def)
  have d: "upload_pdf_with_cache (example_refusing 1)
        (example_uploaded\<lparr>stat_mtime := (\<lambda>q. Inr 2000)\<rparr>) ''pdfs/acme.pdf''
     = Some (example_uploaded\<lparr>stat_mtime := (\<lambda>q. Inr 2000),
               upload_calls := [''pdfs/acme.pdf'', ''pdfs/acme.pdf'']\<rparr>,
             Inl (OtherError, ''connection reset''))"
    by (simp add: upload_pdf_with_cache_def Let_def upload_file_def cache_lookup_def
        example_uploaded_def example_world_def example_refusing_def example_provider_def)
  have e: "upload_cache (example_uploaded\<lparr>stat_mtime := (\<lambda>q. Inr 2000),
                      upload_calls := [''pdfs/acme.pdf'', ''pdfs/acme.pdf'']\<rparr>)
        ''/srv/pdfs/acme.pdf''
     = Some \<lparr>entry_file = example_file ''files/f0'' (example_state ''ACTIVE''),
             entry_mtime = 1000\<rparr>"
    by (simp add: example_uploaded_def)
  have s: "stat_mtime (example_world\<lparr>upload_calls := [''pdfs/acme.pdf'']\<rparr>) ''pdfs/acme.pdf''
     = stat_mtime example_world ''pdfs/acme.pdf''"
    by simp
  from a s b c d e show ?thesis by simp
qed

section \<open>Properties of a query\<close>

text \<open>The parts of the world an upload does not touch.\<close>

lemma upload_keeps_chat:
  assumes "upload_pdf_with_cache env w p = Some (w', r)"
  shows "same_chat w w'"
proof (cases "stat_mtime w p")
  case (Inl e)
  with assms show ?thesis by (simp add: upload_pdf_with_cache_def Let_def same_chat_def)
next
  case (Inr t)
  show ?thesis
  proof (cases "cache_lookup (upload_cache w (resolve env p)) t")
    case (Some f)
    with assms upload_hit [OF Inr Some] show ?thesis by (simp add: same_chat_def)
  next
    case None
    let ?wu = "w\<lparr>upload_calls := upload_calls w @ [p]\<rparr>"
    show ?thesis
    proof (cases "upload_result env (length (upload_calls w))")
      case (Inl e)
      have "upload_pdf_with_cache env w p = Some (?wu, Inl e)"
        using upload_fresh [OF Inr None] Inl by simp
      with assms have "w' = ?wu" by simp
      then show ?thesis by (simp add: same_chat_def)
    next
      case up: (Inr up)
      with assms upload_fresh [OF Inr None] obtain w3 r3
        where wt: "wait_for_file_active env ?wu up 120 = Some (w3, r3)"
        by (auto split: option.splits)
      have fr: "same_session ?wu w3" using wt by (rule wait_frame)
      from assms upload_fresh [OF Inr None] up wt fr show ?thesis
        by (cases r3) (auto simp: same_session_def same_chat_def)
    qed
  qed
qed

lemma same_chat_trans: "same_chat a b \<Longrightarrow> same_chat b c \<Longrightarrow> same_chat a c"
  by (simp add: same_chat_def)

lemma upload_all_keeps_chat:
  "upload_all env w ps = Some (w', r) \<Longrightarrow> same_chat w w'"
proof (induction ps arbitrary: w w' r)
  case Nil
  then show ?case by (simp add: same_chat_def)
next
  case (Cons p ps)
  from Cons.prems obtain w1 r1 where u: "upload_pdf_with_cache env w p = Some (w1, r1)"
    by (auto split: option.splits)
  have k1: "same_chat w w1" using u by (rule upload_keeps_chat)
  show ?case
  proof (cases r1)
    case (Inl e)
    with Cons.prems u have "w' = w1" by simp
    with k1 show ?thesis by simp
  next
    case (Inr f)
    with Cons.prems u obtain w2 r2 where a: "upload_all env w1 ps = Some (w2, r2)"
      by (auto split: option.splits)
    have k2: "same_chat w1 w2" using a by (rule Cons.IH)
    from Cons.prems u Inr a have "w' = w2" by (cases r2) auto
    with k1 k2 show ?thesis using same_chat_trans by blast
  qed
qed

lemma find_lender_files_missing:
  "snd (find_lender_files lenders index)
     = filter (\<lambda>t. index (normalize_lender_key t) = None) lenders"
  by (simp add: find_lender_files_def find_lender_files_loop_missing)

lemma join_comma_names:
  "t \<in> set xs \<Longrightarrow> \<exists>u v. join_comma xs = u @ t @ v"
proof (induction xs rule: join_comma.induct)
  case 1
  then show ?case by simp
next
  case (2 x)
  then have "join_comma [x] = [] @ t @ []" by simp
  then show ?case by blast
next
  case (3 x y ys)
  show ?case
  proof (cases "t = x")
    case True
    then have "join_comma (x # y # ys) = [] @ t @ ('', '' @ join_comma (y # ys))" by simp
    then show ?thesis by blast
  next
    case False
    with "3.prems" have "t \<in> set (y # ys)" by simp
    then obtain u v where "join_comma (y # ys) = u @ t @ v" using "3.IH" by blast
    then have "join_comma (x # y # ys) = (x @ '', '' @ u) @ t @ v" by simp
    then show ?thesis by blast
  qed
qed

text \<open>
  Claim C4, amended. Take a query whose question text is not empty and of whose lender
  tokens at least one is not a key of the index. Then the query fails with the
  \<open>FileNotFoundError\<close> whose message lists the missing tokens, in their order, each
  of them written out in it; the log gets one entry with that message as the error and no
  response; and no upload, no poll, no clock reading and no message to the model is made,
  and the upload cache is as before.
\<close>

theorem missing_lender_fails_before_any_call:
  assumes "effective_query cfg prompt = (lenders, question)" "question \<noteq> []"
    "snd (find_lender_files lenders (lender_index cfg)) \<noteq> []"
    "missing = filter (\<lambda>t. lender_index cfg (normalize_lender_key t) = None) lenders"
  shows "map_option snd (process_query env cfg w prompt)
           = Some (Failed (FileNotFoundError, missing_message missing))
       \<and> map_option (\<lambda>r. (upload_calls (fst r), get_calls (fst r), send_calls (fst r),
                            clock_reads (fst r), upload_cache (fst r)))
            (process_query env cfg w prompt)
           = Some (upload_calls w, get_calls w, send_calls w, clock_reads w, upload_cache w)
       \<and> map_option (\<lambda>r. interaction_logs (fst r)) (process_query env cfg w prompt)
           = Some (interaction_logs w @
               [\<lparr>log_timestamp = timestamp_at env (length (interaction_logs w)),
                 log_user_email = user_email cfg,
                 log_prompt = prompt,
                 log_response = None,
                 log_error = Some (missing_message missing)\<rparr>])
       \<and> (\<forall>t\<in>set missing. \<exists>u v. missing_message missing = u @ t @ v)"
proof -
  let ?w0 = "w\<lparr>messages := messages w @ [(''user'', prompt)],
                rendered := rendered w @ [prompt]\<rparr>"
  have m: "snd (find_lender_files lenders (lender_index cfg)) = missing"
    using assms(4) by (simp add: find_lender_files_missing)
  have mne: "missing \<noteq> []" using assms(3) m by simp
  have lne: "lenders \<noteq> []" using mne assms(4) by auto
  obtain matched where fl: "find_lender_files lenders (lender_index cfg) = (matched, missing)"
    using m by (cases "find_lender_files lenders (lender_index cfg)") simp
  have body: "answer_query env cfg ?w0 prompt
                = Some (?w0, Inl (FileNotFoundError, missing_message missing))"
    using lne assms(2) mne by (simp add: answer_query_def assms(1) fl)
  have msg: "missing_message missing \<noteq> []" by (simp add: missing_message_def)
  have run: "process_query env cfg w prompt
      = Some (log_interaction env
                (?w0\<lparr>rendered := rendered ?w0 @ [missing_message missing]\<rparr>)
                (user_email cfg) prompt [] (Some (missing_message missing)),
              Failed (FileNotFoundError, missing_message missing))"
    by (simp add: process_query_def Let_def body error_display_def)
  have names: "\<forall>t\<in>set missing. \<exists>u v. missing_message missing = u @ t @ v"
  proof
    fix t assume "t \<in> set missing"
    then obtain u v where "join_comma missing = u @ t @ v" using join_comma_names by blast
    then have "missing_message missing
        = (''Missing PDF files for: '' @ u) @ t
          @ (v @ ''. Check the sidebar list to see available lenders.'')"
      by (simp add: missing_message_def)
    then show "\<exists>u v. missing_message missing = u @ t @ v" by blast
  qed
  show ?thesis
    using names msg by (simp add: run log_interaction_def)
qed

text \<open>
  The claim as first stated, for every query with a token that is not in the index, fails
  when the query has no question text: the check for the question comes first, and the
  query fails with its \<open>ValueError\<close>.
\<close>

theorem missing_lender_counterexample:
  "snd (find_lender_files (fst (effective_query example_settings ''(ghostlender)''))
         (lender_index example_settings)) = [''ghostlender'']
   \<and> map_option snd
        (process_query example_provider example_settings example_world ''(ghostlender)'')
     = Some (Failed (ValueError, ''Please include a question after the lender list.''))"
  by (simp add: process_query_def answer_query_def effective_query_def
      parse_lenders_and_question_def lender_split_def match_separator_def
      match_alternative_def match_keyword_def next_is_word_def is_space_def is_word_def
      is_alnum_def lower_char_def is_upper_def Let_def strip_def example_settings_def
      find_lender_files_def normalize_lender_key_def lower_def is_key_char_def)

lemma strip_blank:
  assumes "list_all is_space t"
  shows "strip t = []"
proof -
  have d: "dropWhile is_space t = []"
    using assms by (induction t) auto
  show ?thesis unfolding strip_def d by simp
qed

text \<open>
  Claim C5. Let a query reach the model (it names lenders, has a question, every token
  is in the index, a model is selected and every upload returns a handle) and let the
  text of the response be missing, empty or white space only. Then
  \<open>answer_with_gemini\<close> returns the fixed fallback sentence, the query ends as
  answered with that sentence, and the log gets one entry whose response is the fallback
  sentence and whose error is none.
\<close>

theorem empty_response_becomes_fallback:
  assumes "effective_query cfg prompt = (lenders, question)" "lenders \<noteq> []" "question \<noteq> []"
    and "find_lender_files lenders (lender_index cfg) = (matched, [])"
    and "selected_model cfg \<noteq> []"
    and "w0 = w\<lparr>messages := messages w @ [(''user'', prompt)],
                 rendered := rendered w @ [prompt]\<rparr>"
    and "upload_all env w0 (map snd matched) = Some (w1, Inr uploads)"
    and "send_result env (length (send_calls w1)) = Inr response_text"
    and "case response_text of None \<Rightarrow> True | Some t \<Rightarrow> list_all is_space t"
  shows "map_option snd (answer_with_gemini env cfg w0 question (map snd matched)
                           (selected_model cfg) (user_email cfg))
           = Some (Inr fallback_answer)
       \<and> map_option snd (process_query env cfg w prompt) = Some (Answered fallback_answer)
       \<and> map_option (\<lambda>r. interaction_logs (fst r)) (process_query env cfg w prompt)
           = Some (interaction_logs w @
               [\<lparr>log_timestamp = timestamp_at env (length (interaction_logs w)),
                 log_user_email = user_email cfg,
                 log_prompt = prompt,
                 log_response = Some fallback_answer,
                 log_error = None\<rparr>])"
proof -
  let ?w2 = "ensure_chat_session w1 (active_api_key cfg) (selected_model cfg) (user_email cfg)"
  let ?parts = "(uploads, system_prompt cfg @ [CHR 0x0A, CHR 0x0A] @ ''User Question: ''
                   @ question)"
  let ?w3 = "?w2\<lparr>send_calls := send_calls ?w2 @ [?parts]\<rparr>"
  have blank: "strip (case response_text of None \<Rightarrow> [] | Some t \<Rightarrow> t) = []"
    using assms(9) strip_blank [of "[]"] by (cases response_text) (simp_all add: strip_blank)
  have sc: "send_calls ?w2 = send_calls w1"
    by (simp add: ensure_chat_session_def Let_def)
  have ans: "answer_with_gemini env cfg w0 question (map snd matched)
               (selected_model cfg) (user_email cfg) = Some (?w3, Inr fallback_answer)"
    using assms(7,8) blank
    by (simp add: answer_with_gemini_def Let_def send_message_def sc)
  have body: "answer_query env cfg w0 prompt = Some (?w3, Inr fallback_answer)"
    unfolding answer_query_def assms(1)
    using assms(2,3,5) ans by (simp add: assms(4) Let_def)
  have chat: "same_chat w0 w1" using assms(7) by (rule upload_all_keeps_chat)
  have logs: "interaction_logs ?w3 = interaction_logs w"
    using chat by (simp add: ensure_chat_session_def Let_def same_chat_def assms(6))
  have run: "process_query env cfg w prompt
      = Some (log_interaction env
                (?w3\<lparr>rendered := rendered ?w3 @ [fallback_answer],
                     messages := messages ?w3 @ [(''assistant'', fallback_answer)]\<rparr>)
                (user_email cfg) prompt fallback_answer None,
              Answered fallback_answer)"
    using body by (simp add: process_query_def Let_def assms(6) [symmetric])
  show ?thesis
    using logs by (simp add: ans run log_interaction_def)
qed

theorem missing_lender_fails_before_any_call_witness:
  "effective_query example_settings ''(acme, ghostlender) minimum FICO?''
     = ([''acme'', ''ghostlender''], ''minimum FICO?'')
   \<and> map_option snd (process_query example_provider example_settings example_world
        ''(acme, ghostlender) minimum FICO?'')
     = Some (Failed (FileNotFoundError,
         ''Missing PDF files for: ghostlender. Check the sidebar list to see available lenders.''))
   \<and> map_option (\<lambda>r. (upload_calls (fst r), get_calls (fst r), send_calls (fst r),
                        clock_reads (fst r), upload_cache (fst r)))
        (process_query example_provider example_settings example_world
          ''(acme, ghostlender) minimum FICO?'')
     = Some ([], [], [], 0, Map.empty)"
proof -
  have q: "effective_query example_settings ''(acme, ghostlender) minimum FICO?''
     = ([''acme'', ''ghostlender''], ''minimum FICO?'')"
    by (simp add: effective_query_def parse_lenders_and_question_def lender_split_def
        match_separator_def match_alternative_def match_keyword_def next_is_word_def
        is_space_def is_word_def is_alnum_def lower_char_def is_upper_def Let_def strip_def
        example_settings_def)
  have k: "normalize_lender_key ''acme'' = ''acme''"
    "normalize_lender_key ''ghostlender'' = ''ghostlender''"
    by (simp_all add: normalize_lender_key_def lower_def lower_char_def is_upper_def
        is_key_char_def Let_def)
  have n: "''minimum FICO?'' \<noteq> []" by simp
  have f: "[''ghostlender''] = filter
      (\<lambda>t. lender_index example_settings (normalize_lender_key t) = None)
      [''acme'', ''ghostlender'']"
    by (simp add: k example_settings_def)
  have m: "snd (find_lender_files [''acme'', ''ghostlender''] (lender_index example_settings))
      \<noteq> []"
    by (simp add: find_lender_files_def k example_settings_def)
  have msg: "missing_message [''ghostlender'']
      = ''Missing PDF files for: ghostlender. Check the sidebar list to see available lenders.''"
    by (simp add: missing_message_def)
  have fields: "upload_calls example_world = []" "get_calls example_world = []"
    "send_calls example_world = []" "clock_reads example_world = 0"
    "upload_cache example_world = Map.empty"
    by (simp_all add: example_world_def)
  show ?thesis
    using q missing_lender_fails_before_any_call [OF q n m f, of example_provider example_world]
    unfolding msg fields by blast
qed

theorem empty_response_becomes_fallback_witness:
  "map_option snd (process_query example_provider example_settings example_world
        ''(acme) minimum FICO?'')
     = Some (Answered fallback_answer)
   \<and> map_option (\<lambda>r. interaction_logs (fst r))
        (process_query example_provider example_settings example_world
          ''(acme) minimum FICO?'')
     = Some [\<lparr>log_timestamp = ''2024-01-01T00:00:00'',
               log_user_email = ''broker@example.com'',
               log_prompt = ''(acme) minimum FICO?'',
               log_response = Some fallback_answer,
               log_error = None\<rparr>]"
proof -
  let ?w0 = "example_world\<lparr>messages := messages example_world
                 @ [(''user'', ''(acme) minimum FICO?'')],
               rendered := rendered example_world @ [''(acme) minimum FICO?'']\<rparr>"
  let ?f0 = "example_file ''files/f0'' (example_state ''ACTIVE'')"
  let ?w1 = "?w0\<lparr>upload_calls := upload_calls ?w0 @ [''pdfs/acme.pdf''],
               clock_reads := Suc (clock_reads ?w0),
               upload_cache := (upload_cache ?w0)
                 (resolve example_provider ''pdfs/acme.pdf'' \<mapsto>
                    \<lparr>entry_file = ?f0, entry_mtime = 1000\<rparr>)\<rparr>"
  have q: "effective_query example_settings ''(acme) minimum FICO?''
     = ([''acme''], ''minimum FICO?'')"
    by (simp add: effective_query_def parse_lenders_and_question_def lender_split_def
        match_separator_def match_alternative_def match_keyword_def next_is_word_def
        is_space_def is_word_def is_alnum_def lower_char_def is_upper_def Let_def strip_def
        example_settings_def)
  have k: "normalize_lender_key ''acme'' = ''acme''"
    by (simp add: normalize_lender_key_def lower_def lower_char_def is_upper_def
        is_key_char_def Let_def)
  have fl: "find_lender_files [''acme''] (lender_index example_settings)
      = ([(''acme'', ''pdfs/acme.pdf'')], [])"
    by (simp add: find_lender_files_def k example_settings_def)
  have st: "stat_mtime ?w0 ''pdfs/acme.pdf'' = Inr 1000"
    by (simp add: example_world_def)
  have miss: "cache_lookup (upload_cache ?w0 (resolve example_provider ''pdfs/acme.pdf''))
      1000 = None"
    by (simp add: example_world_def cache_lookup_def)
  have up: "upload_result example_provider (length (upload_calls ?w0)) = Inr ?f0"
    by (simp add: example_world_def example_provider_def)
  have act: "state_is ?f0 ''ACTIVE''"
    by (simp add: state_is_def example_file_def example_state_def)
  have ups: "upload_all example_provider ?w0 (map snd [(''acme'', ''pdfs/acme.pdf'')])
      = Some (?w1, Inr [?f0])"
    using upload_miss_active [OF st miss up act] by simp
  have resp: "send_result example_provider (length (send_calls ?w1)) = Inr (Some '' '')"
    by (simp add: example_provider_def)
  have blank: "case Some '' '' of None \<Rightarrow> True | Some t \<Rightarrow> list_all is_space t"
    by (simp add: is_space_def)
  have l: "[''acme''] \<noteq> []" and n: "''minimum FICO?'' \<noteq> []"
    and md: "selected_model example_settings \<noteq> []"
    by (simp_all add: example_settings_def)
  show ?thesis
    using empty_response_becomes_fallback [OF q l n fl md refl ups resp blank]
    by (simp add: example_world_def example_provider_def example_settings_def)
qed

end
